theory Spec2Isabelle
  imports Main "HOL-Library.Word"
begin

section \<open>Strings and JSON values\<close>

text \<open>
  A JavaScript string is a sequence of UTF-16 code units. \<open>js\<close> writes an ASCII literal
  as such a sequence.
\<close>

type_synonym jsstring = "16 word list"

definition js :: "string \<Rightarrow> jsstring" where
  "js cs = map (\<lambda>c. of_nat (of_char c)) cs"

text \<open>
  The code units that \<open>String.prototype.trim\<close> strips: ECMAScript's WhiteSpace
  (TAB, VT, FF, SP, NBSP, ZWNBSP and the Unicode space separators) and LineTerminator
  (LF, CR, LS, PS). All of them lie in the basic plane, so the test is per code unit.
\<close>

definition is_ws :: "16 word \<Rightarrow> bool" where
  "is_ws c \<longleftrightarrow>
     c \<in> {0x9, 0xA, 0xB, 0xC, 0xD, 0x20, 0xA0, 0x1680, 0x2028, 0x2029, 0x202F, 0x205F,
          0x3000, 0xFEFF}
     \<or> (0x2000 \<le> c \<and> c \<le> 0x200A)"

definition trim :: "jsstring \<Rightarrow> jsstring" where
  "trim s = rev (dropWhile is_ws (rev (dropWhile is_ws s)))"

text \<open>A string that starts and ends with a code unit that \<open>trim\<close> keeps.\<close>

definition trimmed :: "jsstring \<Rightarrow> bool" where
  "trimmed s \<longleftrightarrow> s \<noteq> [] \<and> \<not> is_ws (hd s) \<and> \<not> is_ws (last s)"

text \<open>\<open>Array.prototype.join\<close> on an array of strings.\<close>

fun join :: "jsstring \<Rightarrow> jsstring list \<Rightarrow> jsstring" where
  "join sep [] = []"
| "join sep [x] = x"
| "join sep (x # y # ys) = x @ sep @ join sep (y # ys)"

definition sp :: jsstring where
  "sp = js '' ''"

text \<open>
  What \<open>res.json()\<close> can produce, and \<open>undefined\<close> for a missing property. This
  code only tests a number for truthiness, so a number is an integer here, zero for the
  falsy ones. An object is the list of its own properties; a lookup takes the first binding
  of a key.
\<close>

datatype jsval =
    JUndefined
  | JNull
  | JBool bool
  | JNum int
  | JStr jsstring
  | JArr "jsval list"
  | JObj "(jsstring \<times> jsval) list"

fun truthy :: "jsval \<Rightarrow> bool" where
  "truthy JUndefined = False"
| "truthy JNull = False"
| "truthy (JBool b) = b"
| "truthy (JNum n) = (n \<noteq> 0)"
| "truthy (JStr s) = (s \<noteq> [])"
| "truthy (JArr xs) = True"
| "truthy (JObj fs) = True"

text \<open>
  Reading one of the properties \<open>bot\<close>, \<open>text\<close>, \<open>sender\<close>, \<open>time\<close>, none of
  which any prototype defines: \<open>None\<close> is the TypeError of reading a property of
  \<open>null\<close> or \<open>undefined\<close>.
\<close>

fun get_prop :: "jsval \<Rightarrow> jsstring \<Rightarrow> jsval option" where
  "get_prop JUndefined k = None"
| "get_prop JNull k = None"
| "get_prop (JObj fs) k = Some (case map_of fs k of None \<Rightarrow> JUndefined | Some v \<Rightarrow> v)"
| "get_prop v k = Some JUndefined"

text \<open>
  Whether ToString of a value completes. A parsed object that has an own property
  \<open>toString\<close> (never a function) cannot be converted; an array converts its elements.
\<close>

fun to_string_ok :: "jsval \<Rightarrow> bool" where
  "to_string_ok (JObj fs) = (js ''toString'' \<notin> fst ` set fs)"
| "to_string_ok (JArr xs) = (\<forall>x \<in> set xs. to_string_ok x)"
| "to_string_ok v = True"

text \<open>Whether ToString of a value is the empty string (an array joins with commas).\<close>

fun str_empty :: "jsval \<Rightarrow> bool" where
  "str_empty (JStr s) = (s = [])"
| "str_empty (JArr []) = True"
| "str_empty (JArr [x]) = (x = JNull \<or> x = JUndefined \<or> str_empty x)"
| "str_empty v = False"

definition ascii_ws :: "16 word \<Rightarrow> bool" where
  "ascii_ws c \<longleftrightarrow> c \<in> {0x9, 0xA, 0xC, 0xD, 0x20}"

text \<open>
  Whether ToString of a value holds ASCII whitespace; the string of a plain object is
  \<open>[object Object]\<close>.
\<close>

fun str_has_ws :: "jsval \<Rightarrow> bool" where
  "str_has_ws (JStr s) = (\<exists>c \<in> set s. ascii_ws c)"
| "str_has_ws (JObj fs) = True"
| "str_has_ws (JArr xs) = (\<exists>x \<in> set xs. str_has_ws x)"
| "str_has_ws v = False"

text \<open>
  \<open>classList.add\<close> raises on a token that is empty or holds ASCII whitespace.
\<close>

definition class_token_ok :: "jsval \<Rightarrow> bool" where
  "class_token_ok v \<longleftrightarrow> to_string_ok v \<and> \<not> str_empty v \<and> \<not> str_has_ws v"

section \<open>The page state\<close>

text \<open>
  A child of \<open>messagesEl\<close>: a message row (the class token, \<open>textContent\<close> of the
  bubble and of its time stamp) or the row of the typing indicator.
\<close>

datatype node = Bubble jsval jsval jsval | TypingRow

datatype panel = PanelInitial | PanelLoading | PanelError | PanelContent jsval

datatype request = GetMessages | GetUserState | PostSend jsstring

text \<open>An async function suspended at an \<open>await\<close>.\<close>

datatype cont =
    HistAwaitFetch | HistAwaitJson
  | SendAwaitFetch | SendAwaitJson
  | StateAwaitFetch | StateAwaitJson

datatype log =
    ErrorLoadingHistory | FailedToSend | ErrorSendingMessage | ErrorLoadingUserState
  | Uncaught

text \<open>
  The script's variables (\<open>typingBubbleEl\<close>, \<open>pendingChunks\<close>, \<open>pendingTimer\<close>),
  the parts of the document it reads and writes, and the runtime around it: the live
  timers with their deadlines, the clock in milliseconds, every \<open>fetch\<close> made so far
  (a request's number is its position), the suspended async calls and the console.
  The scroll position is not modelled.
\<close>

record state =
  typingBubbleEl :: bool
  pendingChunks :: "jsstring list"
  pendingTimer :: "nat option"
  inputValue :: jsstring
  messages :: "node list"
  sendBtnClassDisabled :: bool
  sendBtnDisabled :: bool
  debugOverlayHidden :: bool
  debugBody :: panel
  timers :: "(nat \<times> nat) list"
  nextTimer :: nat
  now :: nat
  requests :: "request list"
  inflight :: "(nat \<times> cont) list"
  console :: "log list"

text \<open>A call either returns or raises; both leave a state behind.\<close>

datatype outcome = Returned state | Raised state

definition INACTIVITY_MS :: nat where
  "INACTIVITY_MS = 4000"

section \<open>Runtime services\<close>

text \<open>Timer handles are positive integers, never reused.\<close>

definition setTimeout :: "nat \<Rightarrow> state \<Rightarrow> nat \<times> state" where
  "setTimeout ms s =
     (nextTimer s,
      s\<lparr>timers := timers s @ [(nextTimer s, now s + ms)], nextTimer := nextTimer s + 1\<rparr>)"

definition clearTimeout :: "nat \<Rightarrow> state \<Rightarrow> state" where
  "clearTimeout h s = s\<lparr>timers := filter (\<lambda>(i, dl). i \<noteq> h) (timers s)\<rparr>"

definition fetch :: "request \<Rightarrow> cont \<Rightarrow> state \<Rightarrow> state" where
  "fetch r k s =
     s\<lparr>requests := requests s @ [r], inflight := inflight s @ [(length (requests s), k)]\<rparr>"

definition await :: "nat \<Rightarrow> cont \<Rightarrow> state \<Rightarrow> state" where
  "await rid k s = s\<lparr>inflight := inflight s @ [(rid, k)]\<rparr>"

definition console_error :: "log \<Rightarrow> state \<Rightarrow> state" where
  "console_error l s = s\<lparr>console := console s @ [l]\<rparr>"

section \<open>The functions of chat.js\<close>

definition createMessageBubble :: "jsval \<Rightarrow> node option" where
  "createMessageBubble msg =
     (case (get_prop msg (js ''sender''), get_prop msg (js ''text''), get_prop msg (js ''time'')) of
        (Some sender, Some text, Some time) \<Rightarrow>
          (let time' = (if truthy time then time else JStr [])
           in if class_token_ok sender \<and> to_string_ok text \<and> to_string_ok time'
              then Some (Bubble sender text time') else None)
      | _ \<Rightarrow> None)"

definition appendMessage :: "jsval \<Rightarrow> state \<Rightarrow> outcome" where
  "appendMessage msg s =
     (if \<not> truthy msg then Returned s
      else case get_prop msg (js ''text'') of
        None \<Rightarrow> Raised s
      | Some text \<Rightarrow>
          if \<not> truthy text then Returned s
          else (case text of
              JStr t \<Rightarrow>
                if trim t = [] then Returned s
                else (case createMessageBubble msg of
                    None \<Rightarrow> Raised s
                  | Some b \<Rightarrow> Returned (s\<lparr>messages := messages s @ [b]\<rparr>))
            | _ \<Rightarrow> Raised s))"

fun forEach_appendMessage :: "jsval list \<Rightarrow> state \<Rightarrow> outcome" where
  "forEach_appendMessage [] s = Returned s"
| "forEach_appendMessage (m # ms) s =
     (case appendMessage m s of
        Raised s' \<Rightarrow> Raised s'
      | Returned s' \<Rightarrow> forEach_appendMessage ms s')"

text \<open>\<open>loadHistory\<close> up to its first \<open>await\<close>, then its two resumptions.\<close>

datatype fetch_result = Rejected | Response bool

datatype body_result = BodyRejected | Body jsval

definition loadHistory :: "state \<Rightarrow> state" where
  "loadHistory s = fetch GetMessages HistAwaitFetch s"

definition loadHistory_fetched :: "nat \<Rightarrow> fetch_result \<Rightarrow> state \<Rightarrow> state" where
  "loadHistory_fetched rid r s =
     (case r of
        Rejected \<Rightarrow> console_error ErrorLoadingHistory s
      | Response ok \<Rightarrow> await rid HistAwaitJson s)"

definition loadHistory_parsed :: "body_result \<Rightarrow> state \<Rightarrow> state" where
  "loadHistory_parsed b s =
     (case b of
        BodyRejected \<Rightarrow> console_error ErrorLoadingHistory s
      | Body data \<Rightarrow>
          (let s1 = s\<lparr>messages := []\<rparr>
           in case data of
               JArr ms \<Rightarrow>
                 (case forEach_appendMessage ms s1 of
                    Raised s2 \<Rightarrow> console_error ErrorLoadingHistory s2
                  | Returned s2 \<Rightarrow> s2)
             | _ \<Rightarrow> console_error ErrorLoadingHistory s1))"

definition showTypingIndicator :: "state \<Rightarrow> state" where
  "showTypingIndicator s =
     (if typingBubbleEl s then s
      else s\<lparr>typingBubbleEl := True, messages := messages s @ [TypingRow]\<rparr>)"

definition hideTypingIndicator :: "state \<Rightarrow> state" where
  "hideTypingIndicator s =
     (if typingBubbleEl s
      then s\<lparr>messages := filter (\<lambda>n. n \<noteq> TypingRow) (messages s), typingBubbleEl := False\<rparr>
      else s)"

definition bumpActivityTimer :: "state \<Rightarrow> state" where
  "bumpActivityTimer s =
     (if pendingChunks s = [] then s
      else
        (let s1 = (case pendingTimer s of
                     None \<Rightarrow> s
                   | Some h \<Rightarrow> if h \<noteq> 0 then clearTimeout h s else s);
             (h', s2) = setTimeout INACTIVITY_MS s1
         in s2\<lparr>pendingTimer := Some h'\<rparr>))"

text \<open>
  \<open>localTime\<close> is what \<open>new Date().toTimeString().slice(0, 5)\<close> gives during the call.
\<close>

definition sendMessage :: "jsstring \<Rightarrow> state \<Rightarrow> outcome" where
  "sendMessage localTime s =
     (let text = trim (inputValue s)
      in if text = [] then Returned s
         else
           (let tempUserMsg = JObj [(js ''sender'', JStr (js ''user'')),
                                    (js ''text'', JStr text),
                                    (js ''time'', JStr localTime)]
            in case appendMessage tempUserMsg s of
                 Raised s1 \<Rightarrow> Raised s1
               | Returned s1 \<Rightarrow>
                   Returned (bumpActivityTimer
                     (s1\<lparr>inputValue := [], pendingChunks := pendingChunks s1 @ [text]\<rparr>))))"

definition setSending :: "bool \<Rightarrow> state \<Rightarrow> state" where
  "setSending isSending s =
     (if isSending then s\<lparr>sendBtnClassDisabled := True, sendBtnDisabled := True\<rparr>
      else s\<lparr>sendBtnClassDisabled := False, sendBtnDisabled := False\<rparr>)"

text \<open>
  \<open>flushPendingChunks\<close> up to \<open>await fetch\<close>: the buffer and the handle are reset on
  \<open>s1\<close>, and the request is made from there.
\<close>

definition flushPendingChunks :: "state \<Rightarrow> state" where
  "flushPendingChunks s =
     (if pendingChunks s = [] then s
      else
        (let mergedText = trim (join sp (pendingChunks s));
             s1 = s\<lparr>pendingChunks := [], pendingTimer := None\<rparr>
         in if mergedText = [] then s1
            else fetch (PostSend mergedText) SendAwaitFetch
                   (showTypingIndicator (setSending True s1))))"

text \<open>The \<open>catch\<close> block of \<open>flushPendingChunks\<close> followed by its \<open>finally\<close>.\<close>

definition flush_catch :: "state \<Rightarrow> state" where
  "flush_catch s =
     setSending False (console_error ErrorSendingMessage (hideTypingIndicator s))"

definition flushPendingChunks_fetched :: "nat \<Rightarrow> fetch_result \<Rightarrow> state \<Rightarrow> state" where
  "flushPendingChunks_fetched rid r s =
     (case r of
        Rejected \<Rightarrow> flush_catch s
      | Response ok \<Rightarrow>
          (let s1 = hideTypingIndicator s
           in if \<not> ok
              then setSending False (setSending False (console_error FailedToSend s1))
              else await rid SendAwaitJson s1))"

text \<open>
  The test \<open>data.bot && data.bot.text && data.bot.text.trim() !== ""\<close>: \<open>None\<close> when it
  raises, otherwise the value passed to \<open>appendMessage\<close>, if any.
\<close>

definition reply_of :: "jsval \<Rightarrow> jsval option option" where
  "reply_of data =
     (case get_prop data (js ''bot'') of
        None \<Rightarrow> None
      | Some reply \<Rightarrow>
          if \<not> truthy reply then Some None
          else (case get_prop reply (js ''text'') of
              None \<Rightarrow> None
            | Some text \<Rightarrow>
                if \<not> truthy text then Some None
                else (case text of
                    JStr t \<Rightarrow> if trim t \<noteq> [] then Some (Some reply) else Some None
                  | _ \<Rightarrow> None)))"

definition flushPendingChunks_parsed :: "body_result \<Rightarrow> state \<Rightarrow> state" where
  "flushPendingChunks_parsed b s =
     (case b of
        BodyRejected \<Rightarrow> flush_catch s
      | Body data \<Rightarrow>
          (case reply_of data of
             None \<Rightarrow> flush_catch s
           | Some None \<Rightarrow> setSending False s
           | Some (Some reply) \<Rightarrow>
               (case appendMessage reply s of
                  Raised s1 \<Rightarrow> flush_catch s1
                | Returned s1 \<Rightarrow> setSending False s1)))"

datatype key = Enter | OtherKey

text \<open>The \<open>keydown\<close> listener of the input field.\<close>

definition keydown :: "key \<Rightarrow> bool \<Rightarrow> jsstring \<Rightarrow> state \<Rightarrow> outcome" where
  "keydown k shiftKey localTime s =
     (let s1 = bumpActivityTimer s
      in if k = Enter \<and> \<not> shiftKey then sendMessage localTime s1 else Returned s1)"

text \<open>
  \<open>openDebugPanel\<close> and its resumptions. \<open>renderDebugContent\<close> assigns the panel's
  HTML in its last statement, after evaluating a template over the snapshot; the template
  is not transcribed. The panel then holds \<open>PanelContent data\<close>, and whether the
  evaluation raised is an input (\<open>raises\<close>) of the resumption.
\<close>

definition debug_catch :: "state \<Rightarrow> state" where
  "debug_catch s = (console_error ErrorLoadingUserState s)\<lparr>debugBody := PanelError\<rparr>"

definition openDebugPanel :: "state \<Rightarrow> state" where
  "openDebugPanel s =
     fetch GetUserState StateAwaitFetch (s\<lparr>debugOverlayHidden := False, debugBody := PanelLoading\<rparr>)"

definition openDebugPanel_fetched :: "nat \<Rightarrow> fetch_result \<Rightarrow> state \<Rightarrow> state" where
  "openDebugPanel_fetched rid r s =
     (case r of
        Rejected \<Rightarrow> debug_catch s
      | Response ok \<Rightarrow> if \<not> ok then debug_catch s else await rid StateAwaitJson s)"

definition openDebugPanel_parsed :: "body_result \<Rightarrow> bool \<Rightarrow> state \<Rightarrow> state" where
  "openDebugPanel_parsed b raises s =
     (case b of
        BodyRejected \<Rightarrow> debug_catch s
      | Body data \<Rightarrow> if raises then debug_catch s else s\<lparr>debugBody := PanelContent data\<rparr>)"

definition closeDebugPanel :: "state \<Rightarrow> state" where
  "closeDebugPanel s = s\<lparr>debugOverlayHidden := True\<rparr>"

section \<open>The event loop\<close>

text \<open>
  One event is one turn of the event loop. \<open>Input\<close> is the user editing the field (no
  listener runs). \<open>TimerFire\<close> is the runtime calling back a timer that is live and due,
  \<open>Tick\<close> the clock advancing. \<open>FetchSettled\<close> and \<open>BodySettled\<close> resume the async call
  that awaits request \<open>rid\<close>; the flag of \<open>BodySettled\<close> says whether
  \<open>renderDebugContent\<close> raises on the body, and only the \<open>/user_state\<close> call reads it.
  An event the runtime cannot deliver (a click on the disabled button, a timer that is not
  live or not due, a settlement nobody awaits) leaves the state as it is. An exception that
  leaves a listener is reported on the console.
\<close>

datatype event =
    Input jsstring
  | KeyDown key bool jsstring
  | ClickSend jsstring
  | TimerFire nat
  | Tick nat
  | FetchSettled nat fetch_result
  | BodySettled nat body_result bool
  | ClickDebug
  | ClickDebugClose
  | ClickOverlay bool

definition finish :: "outcome \<Rightarrow> state" where
  "finish r = (case r of Returned s \<Rightarrow> s | Raised s \<Rightarrow> console_error Uncaught s)"

definition resume :: "nat \<Rightarrow> state \<Rightarrow> state" where
  "resume rid s = s\<lparr>inflight := filter (\<lambda>(i, k). i \<noteq> rid) (inflight s)\<rparr>"

fun step :: "event \<Rightarrow> state \<Rightarrow> state" where
  "step (Input v) s = s\<lparr>inputValue := v\<rparr>"
| "step (KeyDown k shiftKey localTime) s = finish (keydown k shiftKey localTime s)"
| "step (ClickSend localTime) s =
     (if sendBtnDisabled s then s else finish (sendMessage localTime s))"
| "step (TimerFire h) s =
     (case map_of (timers s) h of
        None \<Rightarrow> s
      | Some dl \<Rightarrow> if dl \<le> now s then flushPendingChunks (clearTimeout h s) else s)"
| "step (Tick d) s = s\<lparr>now := now s + d\<rparr>"
| "step (FetchSettled rid r) s =
     (case map_of (inflight s) rid of
        Some HistAwaitFetch \<Rightarrow> loadHistory_fetched rid r (resume rid s)
      | Some SendAwaitFetch \<Rightarrow> flushPendingChunks_fetched rid r (resume rid s)
      | Some StateAwaitFetch \<Rightarrow> openDebugPanel_fetched rid r (resume rid s)
      | _ \<Rightarrow> s)"
| "step (BodySettled rid b raises) s =
     (case map_of (inflight s) rid of
        Some HistAwaitJson \<Rightarrow> loadHistory_parsed b (resume rid s)
      | Some SendAwaitJson \<Rightarrow> flushPendingChunks_parsed b (resume rid s)
      | Some StateAwaitJson \<Rightarrow> openDebugPanel_parsed b raises (resume rid s)
      | _ \<Rightarrow> s)"
| "step ClickDebug s = openDebugPanel s"
| "step ClickDebugClose s = closeDebugPanel s"
| "step (ClickOverlay onOverlay) s = (if onOverlay then closeDebugPanel s else s)"

definition run :: "event list \<Rightarrow> state \<Rightarrow> state" where
  "run evs s = fold step evs s"

text \<open>The page once the script has run: \<open>loadHistory()\<close> has made its request.\<close>

definition blank :: state where
  "blank = \<lparr>typingBubbleEl = False, pendingChunks = [], pendingTimer = None,
     inputValue = [], messages = [], sendBtnClassDisabled = False, sendBtnDisabled = False,
     debugOverlayHidden = True, debugBody = PanelInitial, timers = [], nextTimer = 1,
     now = 0, requests = [], inflight = [], console = []\<rparr>"

definition init :: state where
  "init = loadHistory blank"

text \<open>The merged payloads posted so far, in order.\<close>

fun payload :: "request \<Rightarrow> jsstring list" where
  "payload (PostSend t) = [t]"
| "payload r = []"

definition sent :: "state \<Rightarrow> jsstring list" where
  "sent s = concat (map payload (requests s))"

section \<open>Executions\<close>

text \<open>
  The fragment that an event commits in a state, if any: an unshifted Enter or a click on
  the enabled button, with an input that does not trim to empty.
\<close>

fun commits :: "event \<Rightarrow> state \<Rightarrow> jsstring list" where
  "commits (KeyDown Enter False localTime) s =
     (if trim (inputValue s) = [] then [] else [trim (inputValue s)])"
| "commits (ClickSend localTime) s =
     (if sendBtnDisabled s \<or> trim (inputValue s) = [] then [] else [trim (inputValue s)])"
| "commits e s = []"

text \<open>All fragments committed along an execution, in order.\<close>

fun committed :: "event list \<Rightarrow> state \<Rightarrow> jsstring list" where
  "committed [] s = []"
| "committed (e # es) s = commits e s @ committed es (step e s)"

text \<open>
  The states between turns: handles are positive; with no handle there is no live timer
  and no fragment; with a handle, it is the one live timer and the buffer is not empty;
  every fragment is non-empty and equal to its own trim.
\<close>

definition aggregator_inv :: "state \<Rightarrow> bool" where
  "aggregator_inv s \<longleftrightarrow>
     0 < nextTimer s
     \<and> (case pendingTimer s of
          None \<Rightarrow> timers s = [] \<and> pendingChunks s = []
        | Some h \<Rightarrow>
            h \<noteq> 0 \<and> h < nextTimer s \<and> map fst (timers s) = [h] \<and> pendingChunks s \<noteq> [])
     \<and> (\<forall>c \<in> set (pendingChunks s). c \<noteq> [] \<and> trim c = c)"

text \<open>The state a call leaves behind, and a state apart from its message thread.\<close>

fun state_of :: "outcome \<Rightarrow> state" where
  "state_of (Returned s) = s"
| "state_of (Raised s) = s"

definition off_thread :: "state \<Rightarrow> state" where
  "off_thread s = s\<lparr>messages := []\<rparr>"

text \<open>What the aggregator owns, with the clock.\<close>

definition agg :: "state \<Rightarrow> jsstring list \<times> nat option \<times> (nat \<times> nat) list \<times> nat \<times> nat" where
  "agg s = (pendingChunks s, pendingTimer s, timers s, nextTimer s, now s)"

text \<open>The aggregator at rest: nothing buffered, no timer.\<close>

definition idle :: "state \<Rightarrow> bool" where
  "idle s \<longleftrightarrow> 0 < nextTimer s \<and> pendingTimer s = None \<and> timers s = [] \<and> pendingChunks s = []"

text \<open>The typing row is in the thread only while \<open>typingBubbleEl\<close> holds it.\<close>

definition typing_inv :: "state \<Rightarrow> bool" where
  "typing_inv s \<longleftrightarrow> (TypingRow \<in> set (messages s) \<longrightarrow> typingBubbleEl s)"

text \<open>
  An event that ends a send: the request is rejected, the response is not a success, or the
  body has been read. The send has failed when the request is rejected, the response is
  not a success, the body cannot be read, or handling the body raises (in the test of the
  body or in \<open>appendMessage\<close>).
\<close>

fun send_completes :: "event \<Rightarrow> state \<Rightarrow> bool" where
  "send_completes (FetchSettled rid r) s =
     (r \<noteq> Response True \<and> map_of (inflight s) rid = Some SendAwaitFetch)"
| "send_completes (BodySettled rid b raises) s = (map_of (inflight s) rid = Some SendAwaitJson)"
| "send_completes e s = False"

fun send_failed :: "event \<Rightarrow> state \<Rightarrow> bool" where
  "send_failed (FetchSettled rid r) s =
     (r \<noteq> Response True \<and> map_of (inflight s) rid = Some SendAwaitFetch)"
| "send_failed (BodySettled rid BodyRejected raises) s =
     (map_of (inflight s) rid = Some SendAwaitJson)"
| "send_failed (BodySettled rid (Body data) raises) s =
     (map_of (inflight s) rid = Some SendAwaitJson
      \<and> (case reply_of data of
            None \<Rightarrow> True
          | Some None \<Rightarrow> False
          | Some (Some reply) \<Rightarrow>
              (case appendMessage reply (resume rid s) of
                 Raised s1 \<Rightarrow> True
               | Returned s1 \<Rightarrow> False)))"
| "send_failed e s = False"

section \<open>Timed executions\<close>

text \<open>
  An event loop without latency: when \<open>d\<close> milliseconds pass, each live timer whose
  deadline is reached in that span is called back at its deadline, earliest first, before
  any input that arrives at the end of the span.
\<close>

definition due :: "nat \<Rightarrow> state \<Rightarrow> (nat \<times> nat) list" where
  "due t s = sort_key snd (filter (\<lambda>(h, dl). dl \<le> t) (timers s))"

definition fire_at :: "nat \<times> nat \<Rightarrow> state \<Rightarrow> state" where
  "fire_at tm s = step (TimerFire (fst tm)) (s\<lparr>now := max (now s) (snd tm)\<rparr>)"

definition elapse :: "nat \<Rightarrow> state \<Rightarrow> state" where
  "elapse d s = (fold fire_at (due (now s + d) s) s)\<lparr>now := now s + d\<rparr>"

text \<open>
  Events outside the input field: the user editing the field's text with no key pressed, a
  response arriving, a click in the debug panel. None of them is an activity signal.
\<close>

fun elsewhere :: "event \<Rightarrow> bool" where
  "elsewhere (KeyDown k shiftKey localTime) = False"
| "elsewhere (ClickSend localTime) = False"
| "elsewhere (TimerFire h) = False"
| "elsewhere (Tick d) = False"
| "elsewhere e = True"

text \<open>
  What happens between timer callbacks: \<open>Commit text localTime\<close> leaves \<open>text\<close> in the
  field and presses Enter; \<open>Click text localTime\<close> leaves \<open>text\<close> in the field and
  clicks the send button; \<open>Keystroke shiftKey localTime\<close> presses any other key;
  \<open>Elsewhere e\<close> is an event outside the input field.
\<close>

datatype gesture =
    Commit jsstring jsstring
  | Click jsstring jsstring
  | Keystroke bool jsstring
  | Elsewhere event

fun perform :: "gesture \<Rightarrow> state \<Rightarrow> state" where
  "perform (Commit text localTime) s = step (KeyDown Enter False localTime) (step (Input text) s)"
| "perform (Click text localTime) s = step (ClickSend localTime) (step (Input text) s)"
| "perform (Keystroke shiftKey localTime) s = step (KeyDown OtherKey shiftKey localTime) s"
| "perform (Elsewhere e) s = step e s"

text \<open>Each gesture comes with the time that passed since the one before.\<close>

fun run_timed :: "(nat \<times> gesture) list \<Rightarrow> state \<Rightarrow> state" where
  "run_timed [] s = s"
| "run_timed ((d, g) # gs) s = run_timed gs (perform g (elapse d s))"

text \<open>The committed texts, and the time a list of gestures takes.\<close>

fun texts :: "(nat \<times> gesture) list \<Rightarrow> jsstring list" where
  "texts [] = []"
| "texts ((d, Commit text localTime) # gs) = text # texts gs"
| "texts ((d, Click text localTime) # gs) = text # texts gs"
| "texts ((d, g) # gs) = texts gs"

definition span :: "(nat \<times> gesture) list \<Rightarrow> nat" where
  "span gs = sum_list (map fst gs)"

text \<open>
  The gestures considered: a commit (by key or by click) has a text that does not trim to
  empty, and an \<open>Elsewhere\<close> gesture is an event outside the input field. An outside
  gesture is one that is no activity signal.
\<close>

fun commit :: "gesture \<Rightarrow> bool" where
  "commit (Commit text localTime) = True"
| "commit (Click text localTime) = True"
| "commit g = False"

fun proper :: "gesture \<Rightarrow> bool" where
  "proper (Commit text localTime) = (trim text \<noteq> [])"
| "proper (Click text localTime) = (trim text \<noteq> [])"
| "proper (Keystroke shiftKey localTime) = True"
| "proper (Elsewhere e) = elsewhere e"

text \<open>
  A click reaches the listener only while the send button is enabled: \<open>deliverable gs s\<close>
  says that every click of \<open>gs\<close>, run from \<open>s\<close>, finds it so.
\<close>

fun clickable :: "gesture \<Rightarrow> state \<Rightarrow> bool" where
  "clickable (Click text localTime) s = (\<not> sendBtnDisabled s)"
| "clickable g s = True"

fun deliverable :: "(nat \<times> gesture) list \<Rightarrow> state \<Rightarrow> bool" where
  "deliverable [] s = True"
| "deliverable ((d, g) # gs) s =
     (clickable g (elapse d s) \<and> deliverable gs (perform g (elapse d s)))"

fun activity :: "gesture \<Rightarrow> bool" where
  "activity (Elsewhere e) = False"
| "activity g = True"

definition outside :: "gesture \<Rightarrow> bool" where
  "outside g \<longleftrightarrow> proper g \<and> \<not> activity g"

text \<open>
  \<open>within r gs\<close>: with \<open>r\<close> milliseconds of the quiet period left, every gesture of
  \<open>gs\<close> arrives before the quiet period is over, each activity signal starting a new
  quiet period; that is, every activity signal comes less than \<open>INACTIVITY_MS\<close> after
  the one before. \<open>remaining r gs\<close> is what is left of the quiet period after \<open>gs\<close>.
\<close>

fun within :: "nat \<Rightarrow> (nat \<times> gesture) list \<Rightarrow> bool" where
  "within r [] = True"
| "within r ((d, g) # gs) = (d < r \<and> within (if activity g then INACTIVITY_MS else r - d) gs)"

fun remaining :: "nat \<Rightarrow> (nat \<times> gesture) list \<Rightarrow> nat" where
  "remaining r [] = r"
| "remaining r ((d, g) # gs) = remaining (if activity g then INACTIVITY_MS else r - d) gs"

text \<open>
  The aggregator waiting: the fragments \<open>cs\<close> are buffered, the payloads posted so far
  are \<open>ps\<close>, and the one live timer is due at \<open>dl\<close>. After the callback it is at rest
  again, and the merge of \<open>cs\<close> has been posted.
\<close>

definition waiting :: "jsstring list \<Rightarrow> jsstring list \<Rightarrow> nat \<Rightarrow> state \<Rightarrow> bool" where
  "waiting cs ps dl s \<longleftrightarrow>
     aggregator_inv s \<and> cs \<noteq> [] \<and> pendingChunks s = cs \<and> sent s = ps
     \<and> map snd (timers s) = [dl]"

definition flushed :: "jsstring list \<Rightarrow> jsstring list \<Rightarrow> nat \<Rightarrow> state \<Rightarrow> bool" where
  "flushed cs ps dl s \<longleftrightarrow> idle s \<and> sent s = ps @ [join sp cs] \<and> dl \<le> now s"

section \<open>Response bodies\<close>


fun is_array :: "jsval \<Rightarrow> bool" where
  "is_array (JArr ms) = True"
| "is_array v = False"


text \<open>The message rows of the thread, without the typing indicator.\<close>

definition bubbles :: "state \<Rightarrow> node list" where
  "bubbles s = filter (\<lambda>n. n \<noteq> TypingRow) (messages s)"

section \<open>Trimming and joining\<close>

lemmas model_defs = run_def init_def blank_def loadHistory_def fetch_def await_def resume_def
  console_error_def finish_def keydown_def sendMessage_def appendMessage_def
  createMessageBubble_def class_token_ok_def ascii_ws_def bumpActivityTimer_def
  setTimeout_def clearTimeout_def flushPendingChunks_def showTypingIndicator_def
  hideTypingIndicator_def setSending_def flush_catch_def flushPendingChunks_fetched_def
  flushPendingChunks_parsed_def reply_of_def loadHistory_fetched_def loadHistory_parsed_def
  openDebugPanel_def openDebugPanel_fetched_def openDebugPanel_parsed_def debug_catch_def
  closeDebugPanel_def INACTIVITY_MS_def sent_def js_def sp_def trim_def is_ws_def Let_def

lemma last_dropWhile: "dropWhile P xs \<noteq> [] \<Longrightarrow> last (dropWhile P xs) = last xs"
  by (induction xs) (auto split: if_splits)

lemma trim_trimmed: "trim s \<noteq> [] \<Longrightarrow> trimmed (trim s)"
proof -
  assume ne: "trim s \<noteq> []"
  let ?a = "dropWhile is_ws s"
  let ?b = "dropWhile is_ws (rev ?a)"
  from ne have b: "?b \<noteq> []" by (simp add: trim_def)
  then have a: "?a \<noteq> []" by (cases "?a") simp_all
  have "last (trim s) = hd ?b" using b by (simp add: trim_def last_rev)
  moreover have "\<not> is_ws (hd ?b)" using b by (rule hd_dropWhile)
  moreover have "hd (trim s) = last ?b" using b by (simp add: trim_def hd_rev)
  moreover have "last ?b = hd ?a" using b a by (simp add: last_dropWhile last_rev)
  moreover have "\<not> is_ws (hd ?a)" using a by (rule hd_dropWhile)
  ultimately show ?thesis using ne by (simp add: trimmed_def)
qed

lemma trimmed_trim: "trimmed s \<Longrightarrow> trim s = s"
proof -
  assume t: "trimmed s"
  then have 1: "dropWhile is_ws s = s"
    by (simp add: trimmed_def dropWhile_eq_self_iff)
  from t have "dropWhile is_ws (rev s) = rev s"
    by (simp add: trimmed_def dropWhile_eq_self_iff hd_rev)
  with 1 show ?thesis by (simp add: trim_def)
qed

lemma trimmed_iff: "trimmed c \<longleftrightarrow> c \<noteq> [] \<and> trim c = c"
  using trim_trimmed [of c] trimmed_trim [of c] by (auto simp: trimmed_def)

lemma join_trimmed:
  "cs \<noteq> [] \<Longrightarrow> \<forall>c \<in> set cs. trimmed c \<Longrightarrow> trimmed (join sep cs)"
proof (induction sep cs rule: join.induct)
  case (3 sep x y ys)
  then have "trimmed (join sep (y # ys))" by simp
  with 3 show ?case by (simp add: trimmed_def)
qed simp_all


lemma trim_trim: "trim (trim s) = trim s"
proof (cases "trim s = []")
  case True
  have "trim [] = []" by (simp add: trim_def)
  with True show ?thesis by simp
next
  case False
  then show ?thesis by (simp add: trim_trimmed trimmed_trim)
qed

lemma trim_join:
  "cs \<noteq> [] \<Longrightarrow> \<forall>c \<in> set cs. c \<noteq> [] \<and> trim c = c \<Longrightarrow>
     trim (join sp cs) = join sp cs \<and> join sp cs \<noteq> []"
proof -
  assume "cs \<noteq> []" and "\<forall>c \<in> set cs. c \<noteq> [] \<and> trim c = c"
  then have "trimmed (join sp cs)"
    by (intro join_trimmed) (simp_all add: trimmed_iff)
  then show ?thesis by (simp add: trimmed_iff)
qed

section \<open>Committing a fragment\<close>

lemma class_token_user: "class_token_ok (JStr (js ''user''))"
  by (simp add: class_token_ok_def js_def ascii_ws_def)

lemma appendMessage_user:
  "trim t \<noteq> [] \<Longrightarrow>
   appendMessage (JObj [(js ''sender'', JStr (js ''user'')), (js ''text'', JStr t),
                        (js ''time'', JStr lt)]) s
   = Returned (s\<lparr>messages := messages s @
        [Bubble (JStr (js ''user'')) (JStr t) (JStr lt)]\<rparr>)"
proof -
  assume ne: "trim t \<noteq> []"
  then have t: "t \<noteq> []" by (auto simp: trim_def)
  have keys: "js ''text'' \<noteq> js ''sender''" "js ''time'' \<noteq> js ''sender''" "js ''time'' \<noteq> js ''text''"
    by (simp_all add: js_def)
  show ?thesis using ne t keys
    by (cases "lt = []") (simp_all add: appendMessage_def createMessageBubble_def class_token_user)
qed

lemma sendMessage_blank:
  "trim (inputValue s) = [] \<Longrightarrow> sendMessage lt s = Returned s"
  by (simp add: sendMessage_def)

lemma sendMessage_commit:
  "trim (inputValue s) \<noteq> [] \<Longrightarrow>
   sendMessage lt s = Returned (bumpActivityTimer
     (s\<lparr>messages := messages s @
          [Bubble (JStr (js ''user'')) (JStr (trim (inputValue s))) (JStr lt)],
        inputValue := [],
        pendingChunks := pendingChunks s @ [trim (inputValue s)]\<rparr>))"
  by (simp add: sendMessage_def Let_def appendMessage_user trim_trim)

section \<open>The timer and the flush\<close>

lemma bump_empty: "pendingChunks s = [] \<Longrightarrow> bumpActivityTimer s = s"
  by (simp add: bumpActivityTimer_def)

lemma bump_rearm:
  assumes "aggregator_inv s" "pendingChunks s \<noteq> []"
  shows "bumpActivityTimer s =
     s\<lparr>timers := [(nextTimer s, now s + INACTIVITY_MS)], nextTimer := nextTimer s + 1,
       pendingTimer := Some (nextTimer s)\<rparr>"
proof -
  from assms obtain h dl where h: "pendingTimer s = Some h" "h \<noteq> 0" "timers s = [(h, dl)]"
    by (cases "pendingTimer s"; cases "timers s") (auto simp: aggregator_inv_def)
  then show ?thesis using assms(2)
    by (simp add: bumpActivityTimer_def clearTimeout_def setTimeout_def)
qed

lemma bump_first:
  assumes "0 < nextTimer s" "pendingTimer s = None" "timers s = []" "pendingChunks s \<noteq> []"
  shows "bumpActivityTimer s =
     s\<lparr>timers := [(nextTimer s, now s + INACTIVITY_MS)], nextTimer := nextTimer s + 1,
       pendingTimer := Some (nextTimer s)\<rparr>"
  using assms by (simp add: bumpActivityTimer_def setTimeout_def)

lemma inv_bump: "aggregator_inv s \<Longrightarrow> aggregator_inv (bumpActivityTimer s)"
proof (cases "pendingChunks s = []")
  case True
  assume "aggregator_inv s"
  with True show ?thesis by (simp add: bump_empty)
next
  case False
  assume i: "aggregator_inv s"
  with False show ?thesis by (simp add: bump_rearm) (simp add: aggregator_inv_def)
qed

lemma inv_sendMessage: "aggregator_inv s \<Longrightarrow> aggregator_inv (finish (sendMessage lt s))"
proof (cases "trim (inputValue s) = []")
  case True
  assume "aggregator_inv s"
  with True show ?thesis by (simp add: sendMessage_blank finish_def)
next
  case False
  assume i: "aggregator_inv s"
  let ?s1 = "s\<lparr>messages := messages s @
          [Bubble (JStr (js ''user'')) (JStr (trim (inputValue s))) (JStr lt)],
        inputValue := [],
        pendingChunks := pendingChunks s @ [trim (inputValue s)]\<rparr>"
  have ne: "pendingChunks ?s1 \<noteq> []" by simp
  show ?thesis
  proof (cases "pendingTimer s")
    case None
    with i have "bumpActivityTimer ?s1 = ?s1\<lparr>timers := [(nextTimer ?s1, now ?s1 + INACTIVITY_MS)],
        nextTimer := nextTimer ?s1 + 1, pendingTimer := Some (nextTimer ?s1)\<rparr>"
      by (intro bump_first) (simp_all add: aggregator_inv_def)
    with i False show ?thesis
      by (simp add: sendMessage_commit finish_def) (simp add: aggregator_inv_def trim_trim)
  next
    case (Some h)
    with i False have "aggregator_inv ?s1" by (simp add: aggregator_inv_def trim_trim)
    then have "aggregator_inv (bumpActivityTimer ?s1)" by (rule inv_bump)
    with False show ?thesis by (simp add: sendMessage_commit finish_def)
  qed
qed


lemma flush_dispatch:
  assumes "pendingChunks s \<noteq> []" "\<forall>c \<in> set (pendingChunks s). c \<noteq> [] \<and> trim c = c"
  shows "flushPendingChunks s =
     fetch (PostSend (join sp (pendingChunks s))) SendAwaitFetch
       (showTypingIndicator (setSending True (s\<lparr>pendingChunks := [], pendingTimer := None\<rparr>)))"
  using assms trim_join [of "pendingChunks s"] by (simp add: flushPendingChunks_def Let_def)

lemma inv_flush:
  "timers s = [] \<Longrightarrow> 0 < nextTimer s \<Longrightarrow> aggregator_inv (flushPendingChunks s) \<or> 
     (pendingChunks s = [] \<and> flushPendingChunks s = s)"
  by (simp add: flushPendingChunks_def Let_def aggregator_inv_def fetch_def showTypingIndicator_def
      setSending_def)

lemma inv_timer:
  assumes "aggregator_inv s"
  shows "aggregator_inv (step (TimerFire h) s)"
proof (cases "map_of (timers s) h")
  case None
  with assms show ?thesis by simp
next
  case (Some dl)
  then have mem: "(h, dl) \<in> set (timers s)" by (rule map_of_SomeD)
  with assms have pt: "pendingTimer s = Some h" "timers s = [(h, dl)]" "pendingChunks s \<noteq> []"
    by (cases "pendingTimer s"; cases "timers s"; auto simp: aggregator_inv_def)+
  show ?thesis
  proof (cases "dl \<le> now s")
    case True
    have "timers (clearTimeout h s) = []" "0 < nextTimer (clearTimeout h s)"
      "pendingChunks (clearTimeout h s) \<noteq> []"
      using pt assms by (simp_all add: clearTimeout_def aggregator_inv_def)
    then have "aggregator_inv (flushPendingChunks (clearTimeout h s))"
      using inv_flush [of "clearTimeout h s"] by auto
    with Some True show ?thesis by simp
  next
    case False
    with Some assms show ?thesis by simp
  qed
qed



section \<open>What the network handlers leave alone\<close>

lemma appendMessage_off: "off_thread (state_of (appendMessage msg s)) = off_thread s"
  by (simp add: appendMessage_def off_thread_def split: option.split jsval.split)

lemma appendMessage_raised: "appendMessage m s = Raised s' \<Longrightarrow> s' = s"
  by (auto simp: appendMessage_def split: if_splits option.splits jsval.splits)

lemma forEach_off: "off_thread (state_of (forEach_appendMessage ms s)) = off_thread s"
proof (induction ms arbitrary: s)
  case Nil
  show ?case by simp
next
  case (Cons a ms)
  show ?case
  proof (cases "appendMessage a s")
    case (Returned s')
    then have "off_thread s' = off_thread s" using appendMessage_off [of a s] by simp
    with Returned Cons.IH [of s'] show ?thesis by simp
  next
    case (Raised s')
    then show ?thesis using appendMessage_off [of a s] by simp
  qed
qed

lemma off_thread_fields:
  assumes "off_thread s' = off_thread s"
  shows "agg s' = agg s" "requests s' = requests s" "inflight s' = inflight s"
    "console s' = console s" "sendBtnDisabled s' = sendBtnDisabled s"
    "typingBubbleEl s' = typingBubbleEl s" "inputValue s' = inputValue s"
    "debugBody s' = debugBody s"
proof -
  have "agg (off_thread s') = agg (off_thread s)" using assms by simp
  then show "agg s' = agg s" by (simp add: agg_def off_thread_def)
  have "requests (off_thread s') = requests (off_thread s)" using assms by simp
  then show "requests s' = requests s" by (simp add: off_thread_def)
  have "inflight (off_thread s') = inflight (off_thread s)" using assms by simp
  then show "inflight s' = inflight s" by (simp add: off_thread_def)
  have "console (off_thread s') = console (off_thread s)" using assms by simp
  then show "console s' = console s" by (simp add: off_thread_def)
  have "sendBtnDisabled (off_thread s') = sendBtnDisabled (off_thread s)" using assms by simp
  then show "sendBtnDisabled s' = sendBtnDisabled s" by (simp add: off_thread_def)
  have "typingBubbleEl (off_thread s') = typingBubbleEl (off_thread s)" using assms by simp
  then show "typingBubbleEl s' = typingBubbleEl s" by (simp add: off_thread_def)
  have "inputValue (off_thread s') = inputValue (off_thread s)" using assms by simp
  then show "inputValue s' = inputValue s" by (simp add: off_thread_def)
  have "debugBody (off_thread s') = debugBody (off_thread s)" using assms by simp
  then show "debugBody s' = debugBody s" by (simp add: off_thread_def)
qed

lemma agg_hide [simp]: "agg (hideTypingIndicator s) = agg s"
  and agg_show [simp]: "agg (showTypingIndicator s) = agg s"
  and agg_setSending [simp]: "agg (setSending b s) = agg s"
  and agg_console [simp]: "agg (console_error l s) = agg s"
  and agg_await [simp]: "agg (await rid k s) = agg s"
  and agg_resume [simp]: "agg (resume rid s) = agg s"
  and agg_fetch [simp]: "agg (fetch r k s) = agg s"
  and agg_messages [simp]: "agg (s\<lparr>messages := m\<rparr>) = agg s"
  by (simp_all add: agg_def hideTypingIndicator_def showTypingIndicator_def setSending_def
      console_error_def await_def resume_def fetch_def)

lemma req_hide [simp]: "requests (hideTypingIndicator s) = requests s"
  and req_show [simp]: "requests (showTypingIndicator s) = requests s"
  and req_setSending [simp]: "requests (setSending b s) = requests s"
  and req_console [simp]: "requests (console_error l s) = requests s"
  and req_await [simp]: "requests (await rid k s) = requests s"
  and req_resume [simp]: "requests (resume rid s) = requests s"
  by (simp_all add: hideTypingIndicator_def showTypingIndicator_def setSending_def
      console_error_def await_def resume_def)

lemma agg_flush_catch [simp]: "agg (flush_catch s) = agg s"
  and req_flush_catch [simp]: "requests (flush_catch s) = requests s"
  by (simp_all add: flush_catch_def)

lemma frame_flush_parsed:
  "agg (flushPendingChunks_parsed b s) = agg s \<and> requests (flushPendingChunks_parsed b s) = requests s"
proof -
  have "agg (state_of (appendMessage m s)) = agg s
      \<and> requests (state_of (appendMessage m s)) = requests s" for m
    using off_thread_fields [OF appendMessage_off [of m s]] by simp
  then have "\<And>m x. appendMessage m s = Returned x \<or> appendMessage m s = Raised x
      \<Longrightarrow> agg x = agg s \<and> requests x = requests s"
    by (metis state_of.simps)
  then show ?thesis
    by (auto simp: flushPendingChunks_parsed_def split: body_result.split option.split outcome.split)
qed

lemma frame_flush_fetched:
  "agg (flushPendingChunks_fetched rid r s) = agg s
     \<and> requests (flushPendingChunks_fetched rid r s) = requests s"
  by (simp add: flushPendingChunks_fetched_def Let_def split: fetch_result.split)

lemma frame_history_fetched:
  "agg (loadHistory_fetched rid r s) = agg s
     \<and> requests (loadHistory_fetched rid r s) = requests s"
  by (simp add: loadHistory_fetched_def split: fetch_result.split)

lemma frame_history_parsed:
  "agg (loadHistory_parsed b s) = agg s \<and> requests (loadHistory_parsed b s) = requests s"
proof -
  have "agg (state_of (forEach_appendMessage ms (s\<lparr>messages := []\<rparr>))) = agg s
      \<and> requests (state_of (forEach_appendMessage ms (s\<lparr>messages := []\<rparr>))) = requests s" for ms
    using off_thread_fields [OF forEach_off [of ms "s\<lparr>messages := []\<rparr>"]] by simp
  then have "\<And>ms x. forEach_appendMessage ms (s\<lparr>messages := []\<rparr>) = Returned x
        \<or> forEach_appendMessage ms (s\<lparr>messages := []\<rparr>) = Raised x
      \<Longrightarrow> agg x = agg s \<and> requests x = requests s"
    by (metis state_of.simps)
  then show ?thesis
    by (auto simp: loadHistory_parsed_def Let_def split: body_result.split jsval.split outcome.split)
qed

lemma frame_debug:
  "agg (openDebugPanel_fetched rid r s) = agg s
     \<and> requests (openDebugPanel_fetched rid r s) = requests s"
  "agg (openDebugPanel_parsed b raises s) = agg s
     \<and> requests (openDebugPanel_parsed b raises s) = requests s"
  "agg (openDebugPanel s) = agg s" "agg (closeDebugPanel s) = agg s"
  "requests (closeDebugPanel s) = requests s"
  "requests (openDebugPanel s) = requests s @ [GetUserState]"
  by (simp_all add: openDebugPanel_fetched_def openDebugPanel_parsed_def debug_catch_def
     openDebugPanel_def closeDebugPanel_def agg_def console_error_def await_def fetch_def
     split: fetch_result.split body_result.split)

section \<open>The invariant of the aggregator\<close>

lemma inv_agg: "agg s' = agg s \<Longrightarrow> aggregator_inv s' = aggregator_inv s"
  by (simp add: agg_def aggregator_inv_def cong: option.case_cong)

lemma frame_step:
  assumes "case e of KeyDown k sh lt \<Rightarrow> False | ClickSend lt \<Rightarrow> False | TimerFire h \<Rightarrow> False
     | Tick d \<Rightarrow> False | _ \<Rightarrow> True"
  shows "agg (step e s) = agg s \<and> sent (step e s) = sent s \<and> commits e s = []"
proof (cases e)
  case (Input v)
  then show ?thesis by (simp add: agg_def sent_def)
next
  case (FetchSettled rid r)
  then show ?thesis
    using frame_flush_fetched [of rid r "resume rid s"] frame_history_fetched [of rid r "resume rid s"]
      frame_debug(1) [of rid r "resume rid s"]
    by (simp add: sent_def split: option.split cont.split)
next
  case (BodySettled rid b raises)
  then show ?thesis
    using frame_flush_parsed [of b "resume rid s"] frame_history_parsed [of b "resume rid s"]
      frame_debug(2) [of b raises "resume rid s"]
    by (simp add: sent_def split: option.split cont.split)
next
  case ClickDebug
  then show ?thesis by (simp add: frame_debug sent_def)
next
  case ClickDebugClose
  then show ?thesis by (simp add: frame_debug sent_def)
next
  case (ClickOverlay b)
  then show ?thesis by (simp add: frame_debug sent_def)
qed (use assms in \<open>simp_all only: event.case\<close>)


lemma inv_tick: "aggregator_inv (s\<lparr>now := t\<rparr>) = aggregator_inv s"
  by (simp add: aggregator_inv_def cong: option.case_cong)

lemma inv_input: "aggregator_inv (s\<lparr>inputValue := t\<rparr>) = aggregator_inv s"
  by (simp add: aggregator_inv_def cong: option.case_cong)

lemma inv_keydown: "aggregator_inv s \<Longrightarrow> aggregator_inv (finish (keydown k sh lt s))"
proof -
  assume "aggregator_inv s"
  then have b: "aggregator_inv (bumpActivityTimer s)" by (rule inv_bump)
  then have "aggregator_inv (finish (sendMessage lt (bumpActivityTimer s)))"
    by (rule inv_sendMessage)
  moreover have "finish (Returned (bumpActivityTimer s)) = bumpActivityTimer s"
    by (simp add: finish_def)
  ultimately show ?thesis using b by (simp add: keydown_def Let_def)
qed

lemma inv_frame:
  assumes "aggregator_inv s"
    and "case e of KeyDown k sh lt \<Rightarrow> False | ClickSend lt \<Rightarrow> False | TimerFire h \<Rightarrow> False
     | Tick d \<Rightarrow> False | _ \<Rightarrow> True"
  shows "aggregator_inv (step e s)"
proof -
  have "agg (step e s) = agg s" using frame_step [OF assms(2)] by simp
  with assms(1) show ?thesis using inv_agg [of "step e s" s] by simp
qed

lemma inv_step: "aggregator_inv s \<Longrightarrow> aggregator_inv (step e s)"
proof (cases e)
  case (KeyDown k sh lt)
  assume "aggregator_inv s"
  then have "aggregator_inv (finish (keydown k sh lt s))" by (rule inv_keydown)
  with KeyDown show ?thesis by simp
next
  case (ClickSend lt)
  assume a: "aggregator_inv s"
  then have "aggregator_inv (finish (sendMessage lt s))" by (rule inv_sendMessage)
  with ClickSend a show ?thesis by simp
next
  case (TimerFire h)
  assume "aggregator_inv s"
  then have "aggregator_inv (step (TimerFire h) s)" by (rule inv_timer)
  with TimerFire show ?thesis by (simp only:)
next
  case (Tick d)
  assume "aggregator_inv s"
  with Tick show ?thesis by (simp add: inv_tick)
next
  case (Input v)
  assume "aggregator_inv s"
  with Input show ?thesis by (simp add: inv_input)
next
  case (FetchSettled rid r)
  assume "aggregator_inv s"
  then show ?thesis by (rule inv_frame) (simp add: FetchSettled)
next
  case (BodySettled rid b raises)
  assume "aggregator_inv s"
  then show ?thesis by (rule inv_frame) (simp add: BodySettled)
next
  case ClickDebug
  assume "aggregator_inv s"
  then show ?thesis by (rule inv_frame) (simp add: ClickDebug)
next
  case ClickDebugClose
  assume "aggregator_inv s"
  then show ?thesis by (rule inv_frame) (simp add: ClickDebugClose)
next
  case (ClickOverlay b)
  assume "aggregator_inv s"
  then show ?thesis by (rule inv_frame) (simp add: ClickOverlay)
qed


lemma inv_run: "aggregator_inv s \<Longrightarrow> aggregator_inv (run evs s)"
proof (induction evs arbitrary: s)
  case Nil
  then show ?case by (simp add: run_def)
next
  case (Cons e evs)
  from Cons.prems have "aggregator_inv (step e s)" by (rule inv_step)
  then have "aggregator_inv (run evs (step e s))" by (rule Cons.IH)
  then show ?case by (simp add: run_def)
qed

lemma idle_inv: "idle s \<Longrightarrow> aggregator_inv s"
  by (simp add: idle_def aggregator_inv_def)

lemma idle_init: "idle init"
  by (simp add: idle_def init_def loadHistory_def fetch_def blank_def)

lemma inv_init: "aggregator_inv init"
  using idle_init by (rule idle_inv)

section \<open>Every fragment goes into one payload\<close>

lemma flush_account:
  assumes "aggregator_inv s" "pendingChunks s \<noteq> []"
  shows "pendingChunks (flushPendingChunks (clearTimeout h s)) = []"
    and "sent (flushPendingChunks (clearTimeout h s)) = sent s @ [join sp (pendingChunks s)]"
    and "requests (flushPendingChunks (clearTimeout h s))
         = requests s @ [PostSend (join sp (pendingChunks s))]"
proof -
  let ?c = "clearTimeout h s"
  have pc: "pendingChunks ?c = pendingChunks s" by (simp add: clearTimeout_def)
  have tr: "\<forall>c \<in> set (pendingChunks ?c). c \<noteq> [] \<and> trim c = c"
    using assms(1) pc by (simp add: aggregator_inv_def)
  have fl: "flushPendingChunks ?c =
     fetch (PostSend (join sp (pendingChunks ?c))) SendAwaitFetch
       (showTypingIndicator (setSending True (?c\<lparr>pendingChunks := [], pendingTimer := None\<rparr>)))"
    using assms(2) pc tr by (intro flush_dispatch) simp_all
  show "pendingChunks (flushPendingChunks ?c) = []"
    unfolding fl by (simp add: fetch_def showTypingIndicator_def setSending_def)
  show "requests (flushPendingChunks ?c) = requests s @ [PostSend (join sp (pendingChunks s))]"
    unfolding fl by (simp add: fetch_def clearTimeout_def)
  then show "sent (flushPendingChunks ?c) = sent s @ [join sp (pendingChunks s)]"
    by (simp add: sent_def)
qed

lemma pending_bump: "pendingChunks (bumpActivityTimer s) = pendingChunks s"
  and requests_bump: "requests (bumpActivityTimer s) = requests s"
  and input_bump: "inputValue (bumpActivityTimer s) = inputValue s"
  and disabled_bump: "sendBtnDisabled (bumpActivityTimer s) = sendBtnDisabled s"
  and inflight_bump: "inflight (bumpActivityTimer s) = inflight s"
  and now_bump: "now (bumpActivityTimer s) = now s"
  by (simp_all add: bumpActivityTimer_def setTimeout_def clearTimeout_def Let_def
      split: option.split)

lemma sendMessage_account:
  "pendingChunks (finish (sendMessage lt s)) =
     pendingChunks s @ (if trim (inputValue s) = [] then [] else [trim (inputValue s)])
   \<and> requests (finish (sendMessage lt s)) = requests s"
  by (simp add: sendMessage_blank sendMessage_commit finish_def pending_bump requests_bump)

lemma step_account:
  assumes "aggregator_inv s"
  shows "(pendingChunks (step e s) = pendingChunks s @ commits e s \<and> sent (step e s) = sent s)
    \<or> (commits e s = [] \<and> pendingChunks s \<noteq> [] \<and> pendingChunks (step e s) = []
        \<and> sent (step e s) = sent s @ [join sp (pendingChunks s)])"
proof (cases e)
  case (KeyDown k sh lt)
  have "pendingChunks (step e s) = pendingChunks s @ commits e s \<and> requests (step e s) = requests s"
    using KeyDown sendMessage_account [of lt "bumpActivityTimer s"]
    by (cases k; cases sh)
      (simp_all add: keydown_def Let_def finish_def pending_bump requests_bump input_bump)
  then show ?thesis by (simp add: sent_def)
next
  case (ClickSend lt)
  have "pendingChunks (step e s) = pendingChunks s @ commits e s \<and> requests (step e s) = requests s"
    using ClickSend sendMessage_account [of lt s] by simp
  then show ?thesis by (simp add: sent_def)
next
  case (TimerFire h)
  show ?thesis
  proof (cases "map_of (timers s) h")
    case None
    with TimerFire show ?thesis by simp
  next
    case (Some dl)
    then have "(h, dl) \<in> set (timers s)" by (rule map_of_SomeD)
    with assms have ne: "pendingChunks s \<noteq> []"
      by (cases "pendingTimer s") (auto simp: aggregator_inv_def)
    show ?thesis
    proof (cases "dl \<le> now s")
      case True
      with TimerFire Some flush_account [OF assms ne, of h] ne show ?thesis by simp
    next
      case False
      with TimerFire Some show ?thesis by simp
    qed
  qed
next
  case (Tick d)
  then show ?thesis by (simp add: sent_def)
next
  case (Input v)
  then show ?thesis using frame_step [of e s] by (simp add: agg_def)
next
  case (FetchSettled rid r)
  then show ?thesis using frame_step [of e s] by (simp add: agg_def)
next
  case (BodySettled rid b raises)
  then show ?thesis using frame_step [of e s] by (simp add: agg_def)
next
  case ClickDebug
  then show ?thesis using frame_step [of e s] by (simp add: agg_def)
next
  case ClickDebugClose
  then show ?thesis using frame_step [of e s] by (simp add: agg_def)
next
  case (ClickOverlay b)
  then show ?thesis using frame_step [of e s] by (simp add: agg_def)
qed

lemma run_Cons: "run (e # evs) s = run evs (step e s)"
  by (simp add: run_def)

lemma run_account:
  "aggregator_inv s \<Longrightarrow>
   \<exists>blocks. concat blocks @ pendingChunks (run evs s) = pendingChunks s @ committed evs s
      \<and> sent (run evs s) = sent s @ map (join sp) blocks \<and> [] \<notin> set blocks"
proof (induction evs arbitrary: s)
  case Nil
  have "concat [] @ pendingChunks (run [] s) = pendingChunks s @ committed [] s
      \<and> sent (run [] s) = sent s @ map (join sp) [] \<and> [] \<notin> set ([] :: jsstring list list)"
    by (simp add: run_def)
  then show ?case by blast
next
  case (Cons e evs)
  from Cons.prems have i: "aggregator_inv (step e s)" by (rule inv_step)
  from Cons.IH [OF i] obtain blocks where
    b: "concat blocks @ pendingChunks (run evs (step e s))
          = pendingChunks (step e s) @ committed evs (step e s)"
       "sent (run evs (step e s)) = sent (step e s) @ map (join sp) blocks"
       "[] \<notin> set blocks"
    by blast
  from step_account [OF Cons.prems, of e] show ?case
  proof
    assume a: "pendingChunks (step e s) = pendingChunks s @ commits e s \<and> sent (step e s) = sent s"
    with b have "concat blocks @ pendingChunks (run (e # evs) s)
          = pendingChunks s @ committed (e # evs) s
        \<and> sent (run (e # evs) s) = sent s @ map (join sp) blocks \<and> [] \<notin> set blocks"
      by (simp add: run_Cons)
    then show ?thesis by blast
  next
    assume a: "commits e s = [] \<and> pendingChunks s \<noteq> [] \<and> pendingChunks (step e s) = []
        \<and> sent (step e s) = sent s @ [join sp (pendingChunks s)]"
    with b have "concat (pendingChunks s # blocks) @ pendingChunks (run (e # evs) s)
          = pendingChunks s @ committed (e # evs) s
        \<and> sent (run (e # evs) s) = sent s @ map (join sp) (pendingChunks s # blocks)
        \<and> [] \<notin> set (pendingChunks s # blocks)"
      by (auto simp: run_Cons)
    then show ?thesis by blast
  qed
qed

section \<open>Timed executions of the aggregator\<close>

lemma quiet_run:
  assumes "aggregator_inv s" "pendingChunks s = []" "committed evs s = []"
  shows "sent (run evs s) = sent s \<and> pendingChunks (run evs s) = []"
proof -
  from run_account [OF assms(1), of evs] obtain blocks where
    b: "concat blocks @ pendingChunks (run evs s) = pendingChunks s @ committed evs s"
       "sent (run evs s) = sent s @ map (join sp) blocks" "[] \<notin> set blocks"
    by blast
  from b(1) assms have c: "concat blocks = []" "pendingChunks (run evs s) = []" by simp_all
  from c(1) b(3) have "blocks = []" by (cases blocks) auto
  with b(2) c(2) show ?thesis by simp
qed

lemma elapse_idle: "timers s = [] \<Longrightarrow> elapse d s = s\<lparr>now := now s + d\<rparr>"
  by (simp add: elapse_def due_def)

lemma elapse_wait:
  "timers s = [(h, dl)] \<Longrightarrow> now s + d < dl \<Longrightarrow> elapse d s = s\<lparr>now := now s + d\<rparr>"
  by (simp add: elapse_def due_def)

lemma elapse_fire:
  "timers s = [(h, dl)] \<Longrightarrow> dl \<le> now s + d \<Longrightarrow>
   elapse d s = (flushPendingChunks (clearTimeout h (s\<lparr>now := max (now s) dl\<rparr>)))\<lparr>now := now s + d\<rparr>"
  by (simp add: elapse_def due_def fire_at_def)

lemma bump_timers:
  assumes "pendingChunks s \<noteq> []"
    and "case pendingTimer s of None \<Rightarrow> timers s = [] | Some h \<Rightarrow> h \<noteq> 0 \<and> map fst (timers s) = [h]"
  shows "timers (bumpActivityTimer s) = [(nextTimer s, now s + INACTIVITY_MS)]"
proof (cases "pendingTimer s")
  case None
  with assms show ?thesis by (simp add: bumpActivityTimer_def setTimeout_def)
next
  case (Some h)
  with assms obtain dl where "timers s = [(h, dl)]" by (cases "timers s") auto
  with assms Some show ?thesis
    by (simp add: bumpActivityTimer_def setTimeout_def clearTimeout_def)
qed

lemma waiting_timer: "waiting cs ps dl s \<Longrightarrow> \<exists>h. timers s = [(h, dl)]"
  by (cases "timers s") (auto simp: waiting_def)

lemma sendMessage_waiting:
  assumes "aggregator_inv s" "trim (inputValue s) \<noteq> []"
  shows "waiting (pendingChunks s @ [trim (inputValue s)]) (sent s) (now s + INACTIVITY_MS)
           (finish (sendMessage lt s))"
    and "now (finish (sendMessage lt s)) = now s"
    and "inflight (finish (sendMessage lt s)) = inflight s"
    and "requests (finish (sendMessage lt s)) = requests s"
proof -
  let ?t = "trim (inputValue s)"
  let ?s2 = "s\<lparr>messages := messages s @ [Bubble (JStr (js ''user'')) (JStr ?t) (JStr lt)],
        inputValue := [], pendingChunks := pendingChunks s @ [?t]\<rparr>"
  have p: "finish (sendMessage lt s) = bumpActivityTimer ?s2"
    using assms(2) by (simp add: sendMessage_commit finish_def)
  have i: "aggregator_inv (finish (sendMessage lt s))"
    using assms(1) by (rule inv_sendMessage)
  have pre: "case pendingTimer ?s2 of None \<Rightarrow> timers ?s2 = []
     | Some h \<Rightarrow> h \<noteq> 0 \<and> map fst (timers ?s2) = [h]"
    using assms(1) by (simp add: aggregator_inv_def split: option.splits)
  have "timers (bumpActivityTimer ?s2) = [(nextTimer ?s2, now ?s2 + INACTIVITY_MS)]"
    using pre by (intro bump_timers) simp_all
  then show "waiting (pendingChunks s @ [?t]) (sent s) (now s + INACTIVITY_MS)
           (finish (sendMessage lt s))"
    using i unfolding p
    by (simp add: waiting_def sent_def pending_bump requests_bump now_bump)
  show "now (finish (sendMessage lt s)) = now s" unfolding p by (simp add: now_bump)
  show "inflight (finish (sendMessage lt s)) = inflight s" unfolding p by (simp add: inflight_bump)
  show "requests (finish (sendMessage lt s)) = requests s" unfolding p by (simp add: requests_bump)
qed

lemma commit_waiting:
  assumes "aggregator_inv s" "trim t \<noteq> []"
  shows "waiting (pendingChunks s @ [trim t]) (sent s) (now s + INACTIVITY_MS)
           (perform (Commit t lt) s)"
    and "now (perform (Commit t lt) s) = now s"
    and "inflight (perform (Commit t lt) s) = inflight s"
    and "requests (perform (Commit t lt) s) = requests s"
proof -
  let ?s1 = "bumpActivityTimer (s\<lparr>inputValue := t\<rparr>)"
  have "aggregator_inv (s\<lparr>inputValue := t\<rparr>)" using assms(1) by (simp add: inv_input)
  then have i1: "aggregator_inv ?s1" by (rule inv_bump)
  have in1: "trim (inputValue ?s1) \<noteq> []" using assms(2) by (simp add: input_bump)
  have p: "perform (Commit t lt) s = finish (sendMessage lt ?s1)"
    by (simp add: keydown_def Let_def)
  have f: "pendingChunks ?s1 = pendingChunks s" "sent ?s1 = sent s" "now ?s1 = now s"
    "inputValue ?s1 = t" "inflight ?s1 = inflight s" "requests ?s1 = requests s"
    by (simp_all add: pending_bump requests_bump now_bump input_bump inflight_bump sent_def)
  note w = sendMessage_waiting [OF i1 in1, of lt]
  from w(1) show "waiting (pendingChunks s @ [trim t]) (sent s) (now s + INACTIVITY_MS)
           (perform (Commit t lt) s)" unfolding p f .
  from w(2) show "now (perform (Commit t lt) s) = now s" unfolding p f .
  from w(3) show "inflight (perform (Commit t lt) s) = inflight s" unfolding p f .
  from w(4) show "requests (perform (Commit t lt) s) = requests s" unfolding p f .
qed

lemma click_waiting:
  assumes "aggregator_inv s" "trim t \<noteq> []" "\<not> sendBtnDisabled s"
  shows "waiting (pendingChunks s @ [trim t]) (sent s) (now s + INACTIVITY_MS)
           (perform (Click t lt) s)"
    and "now (perform (Click t lt) s) = now s"
proof -
  let ?s1 = "s\<lparr>inputValue := t\<rparr>"
  have i1: "aggregator_inv ?s1" using assms(1) by (simp add: inv_input)
  have in1: "trim (inputValue ?s1) \<noteq> []" using assms(2) by simp
  have p: "perform (Click t lt) s = finish (sendMessage lt ?s1)"
    using assms(3) by simp
  have f: "pendingChunks ?s1 = pendingChunks s" "sent ?s1 = sent s" "now ?s1 = now s"
    "inputValue ?s1 = t"
    by (simp_all add: sent_def)
  note w = sendMessage_waiting [OF i1 in1, of lt]
  from w(1) show "waiting (pendingChunks s @ [trim t]) (sent s) (now s + INACTIVITY_MS)
           (perform (Click t lt) s)" unfolding p f .
  from w(2) show "now (perform (Click t lt) s) = now s" unfolding p f .
qed

lemma keystroke_waiting:
  assumes "aggregator_inv s" "pendingChunks s \<noteq> []"
  shows "waiting (pendingChunks s) (sent s) (now s + INACTIVITY_MS) (perform (Keystroke sh lt) s)"
    and "now (perform (Keystroke sh lt) s) = now s"
proof -
  have p: "perform (Keystroke sh lt) s = bumpActivityTimer s"
    by (simp add: keydown_def finish_def)
  have "aggregator_inv (bumpActivityTimer s)" using assms(1) by (rule inv_bump)
  moreover have "timers (bumpActivityTimer s) = [(nextTimer s, now s + INACTIVITY_MS)]"
    using assms by (simp add: bump_rearm)
  ultimately show "waiting (pendingChunks s) (sent s) (now s + INACTIVITY_MS)
      (perform (Keystroke sh lt) s)"
    unfolding p using assms by (simp add: waiting_def sent_def pending_bump requests_bump)
  show "now (perform (Keystroke sh lt) s) = now s" unfolding p by (simp add: now_bump)
qed

lemma elsewhere_frame:
  assumes "elsewhere e"
  shows "agg (step e s) = agg s" "sent (step e s) = sent s"
  using frame_step [of e s] assms by (cases e; simp)+

lemma elsewhere_waiting:
  assumes "elsewhere e"
  shows "waiting cs ps dl s \<Longrightarrow> waiting cs ps dl (step e s)"
    and "flushed cs ps dl s \<Longrightarrow> flushed cs ps dl (step e s)"
    and "now (step e s) = now s"
proof -
  note f = elsewhere_frame [OF assms, of s]
  from f(1) have eq: "pendingChunks (step e s) = pendingChunks s"
    "pendingTimer (step e s) = pendingTimer s" "timers (step e s) = timers s"
    "nextTimer (step e s) = nextTimer s" "now (step e s) = now s"
    by (simp_all add: agg_def)
  show "now (step e s) = now s" by (rule eq(5))
  show "waiting cs ps dl (step e s)" if "waiting cs ps dl s"
    using that inv_agg [OF f(1)] f(2) eq by (simp add: waiting_def)
  show "flushed cs ps dl (step e s)" if "flushed cs ps dl s"
    using that f(2) eq by (simp add: flushed_def idle_def)
qed

lemma waiting_early:
  assumes "waiting cs ps dl s" "now s + d < dl"
  shows "waiting cs ps dl (elapse d s)" and "now (elapse d s) = now s + d"
proof -
  from waiting_timer [OF assms(1)] obtain h where "timers s = [(h, dl)]" ..
  then have e: "elapse d s = s\<lparr>now := now s + d\<rparr>" using assms(2) by (rule elapse_wait)
  from assms(1) show "waiting cs ps dl (elapse d s)"
    by (simp add: e waiting_def inv_tick sent_def)
  show "now (elapse d s) = now s + d" by (simp add: e)
qed

lemma waiting_fire:
  assumes "waiting cs ps dl s" "dl \<le> now s + d"
  shows "flushed cs ps dl (elapse d s)"
    and "now (elapse d s) = now s + d"
    and "inflight (elapse d s) = inflight s @ [(length (requests s), SendAwaitFetch)]"
    and "sendBtnDisabled (elapse d s)"
proof -
  from waiting_timer [OF assms(1)] obtain h where h: "timers s = [(h, dl)]" ..
  let ?s0 = "s\<lparr>now := max (now s) dl\<rparr>"
  let ?c = "clearTimeout h ?s0"
  from h assms(2) have e: "elapse d s = (flushPendingChunks ?c)\<lparr>now := now s + d\<rparr>"
    by (rule elapse_fire)
  have i0: "aggregator_inv ?s0" using assms(1) by (simp add: waiting_def inv_tick)
  have pc: "pendingChunks ?c = cs" "sent ?c = ps" "cs \<noteq> []" "inflight ?c = inflight s"
    "requests ?c = requests s"
    using assms(1) by (simp_all add: waiting_def clearTimeout_def sent_def)
  have tr: "\<forall>c \<in> set (pendingChunks ?c). c \<noteq> [] \<and> trim c = c"
    using assms(1) pc by (simp add: waiting_def aggregator_inv_def)
  have fl: "flushPendingChunks ?c =
     fetch (PostSend (join sp (pendingChunks ?c))) SendAwaitFetch
       (showTypingIndicator (setSending True (?c\<lparr>pendingChunks := [], pendingTimer := None\<rparr>)))"
    using pc tr by (intro flush_dispatch) simp_all
  have "sent (elapse d s) = ps @ [join sp cs]"
    unfolding e fl using pc(1,2) by (simp add: sent_def fetch_def)
  moreover have "idle (elapse d s)"
    unfolding e fl using h i0
    by (simp add: idle_def fetch_def showTypingIndicator_def setSending_def clearTimeout_def
        aggregator_inv_def)
  moreover show n: "now (elapse d s) = now s + d" unfolding e by simp
  ultimately show "flushed cs ps dl (elapse d s)" using assms(2) by (simp add: flushed_def)
  show "inflight (elapse d s) = inflight s @ [(length (requests s), SendAwaitFetch)]"
    unfolding e fl using pc
    by (simp add: fetch_def showTypingIndicator_def setSending_def)
  show "sendBtnDisabled (elapse d s)"
    unfolding e fl by (simp add: fetch_def showTypingIndicator_def setSending_def)
qed

lemma idle_elapse:
  assumes "idle s"
  shows "idle (elapse d s)" "sent (elapse d s) = sent s" "now (elapse d s) = now s + d"
  using assms by (simp_all add: idle_def elapse_idle sent_def)

lemma flushed_elapse: "flushed cs ps dl s \<Longrightarrow> flushed cs ps dl (elapse d s)"
  using idle_elapse [of s d] by (simp add: flushed_def)

lemma commit_gesture_waiting:
  assumes "aggregator_inv s" "commit g" "proper g" "clickable g s"
  shows "waiting (pendingChunks s @ map trim (texts [(d, g)])) (sent s) (now s + INACTIVITY_MS)
           (perform g s)"
    and "now (perform g s) = now s"
proof -
  have "waiting (pendingChunks s @ map trim (texts [(d, g)])) (sent s) (now s + INACTIVITY_MS)
           (perform g s) \<and> now (perform g s) = now s"
  proof (cases g)
    case (Commit t lt)
    with assms commit_waiting(1,2) [of s t lt] show ?thesis by simp
  next
    case (Click t lt)
    with assms click_waiting [of s t lt] show ?thesis by simp
  qed (use assms in simp_all)
  then show "waiting (pendingChunks s @ map trim (texts [(d, g)])) (sent s)
      (now s + INACTIVITY_MS) (perform g s)"
    and "now (perform g s) = now s" by simp_all
qed

lemma texts_Cons: "texts ((d, g) # gs) = texts [(d, g)] @ texts gs"
  by (cases g) simp_all

lemma quick_run:
  assumes "waiting cs ps (now s + r) s" "\<forall>(d, g) \<in> set gs. proper g" "within r gs"
    "deliverable gs s"
  shows "waiting (cs @ map trim (texts gs)) ps
           (now (run_timed gs s) + remaining r gs) (run_timed gs s)"
  using assms
proof (induction gs arbitrary: s cs r)
  case Nil
  then show ?case by simp
next
  case (Cons dg gs)
  obtain d g where dg: "dg = (d, g)" by (cases dg)
  with Cons.prems have d: "d < r" and pg: "proper g"
    and rest: "\<forall>(d, g) \<in> set gs. proper g"
    and w: "within (if activity g then INACTIVITY_MS else r - d) gs"
    and cl: "clickable g (elapse d s)"
    and dv: "deliverable gs (perform g (elapse d s))"
    by simp_all
  from d have "now s + d < now s + r" by linarith
  note e = waiting_early [OF Cons.prems(1) this]
  from e(1) have i: "aggregator_inv (elapse d s)" and pc: "pendingChunks (elapse d s) = cs"
    and ne: "pendingChunks (elapse d s) \<noteq> []" and se: "sent (elapse d s) = ps"
    by (simp_all add: waiting_def)
  show ?case
  proof (cases "commit g")
    case True
    then have a: "activity g" by (cases g) simp_all
    from commit_gesture_waiting(1) [OF i True pg cl, of d]
      commit_gesture_waiting(2) [OF i True pg cl] pc se
    have "waiting (cs @ map trim (texts [(d, g)])) ps
        (now (perform g (elapse d s)) + INACTIVITY_MS) (perform g (elapse d s))"
      by simp
    from Cons.IH [OF this rest _ dv] w a show ?thesis
      using dg texts_Cons [of d g gs] by simp
  next
    case False
    show ?thesis
    proof (cases g)
      case (Keystroke sh lt)
      from keystroke_waiting [OF i ne, of sh lt] pc se
      have "waiting cs ps (now (perform g (elapse d s)) + INACTIVITY_MS) (perform g (elapse d s))"
        by (simp add: Keystroke)
      from Cons.IH [OF this rest _ dv] w show ?thesis using dg Keystroke by simp
    next
      case (Elsewhere ev)
      with pg have el: "elsewhere ev" by simp
      have n: "now (perform g (elapse d s)) = now s + d"
        using elsewhere_waiting(3) [OF el, of "elapse d s"] e(2) by (simp add: Elsewhere)
      have "waiting cs ps (now s + r) (perform g (elapse d s))"
        using elsewhere_waiting(1) [OF el e(1)] by (simp add: Elsewhere)
      moreover have "now s + r = now (perform g (elapse d s)) + (r - d)" using n d by simp
      ultimately have "waiting cs ps (now (perform g (elapse d s)) + (r - d))
          (perform g (elapse d s))" by simp
      from Cons.IH [OF this rest _ dv] w show ?thesis using dg Elsewhere by simp
    qed (use False in simp_all)
  qed
qed

lemma pause_run:
  assumes "waiting cs ps dl s \<or> flushed cs ps dl s" "\<forall>(d, g) \<in> set gs. outside g"
  shows "(waiting cs ps dl (run_timed gs s) \<or> flushed cs ps dl (run_timed gs s))
     \<and> now (run_timed gs s) = now s + span gs"
  using assms
proof (induction gs arbitrary: s)
  case Nil
  then show ?case by (simp add: span_def)
next
  case (Cons dg gs)
  obtain d g where dg: "dg = (d, g)" by (cases dg)
  with Cons.prems(2) have pg: "outside g" and rest: "\<forall>(d, g) \<in> set gs. outside g"
    by simp_all
  from pg obtain e where g: "g = Elsewhere e" and el: "elsewhere e"
    by (cases g) (simp_all add: outside_def)
  have 1: "(waiting cs ps dl (elapse d s) \<or> flushed cs ps dl (elapse d s))
      \<and> now (elapse d s) = now s + d"
  proof (cases "waiting cs ps dl s")
    case True
    show ?thesis
    proof (cases "now s + d < dl")
      case True
      with waiting_early [OF \<open>waiting cs ps dl s\<close>] show ?thesis by simp
    next
      case False
      then have "dl \<le> now s + d" by simp
      with waiting_fire(1,2) [OF \<open>waiting cs ps dl s\<close>] show ?thesis by simp
    qed
  next
    case False
    with Cons.prems(1) have f: "flushed cs ps dl s" by simp
    then have "idle s" by (simp add: flushed_def)
    with flushed_elapse [OF f] idle_elapse(3) show ?thesis by simp
  qed
  then have 2: "(waiting cs ps dl (perform g (elapse d s)) \<or> flushed cs ps dl (perform g (elapse d s)))
      \<and> now (perform g (elapse d s)) = now s + d"
    using elsewhere_waiting(1) [OF el, of cs ps dl "elapse d s"]
      elsewhere_waiting(2) [OF el, of cs ps dl "elapse d s"]
      elsewhere_waiting(3) [OF el, of "elapse d s"] by (auto simp: g)
  from Cons.IH [OF _ rest, of "perform g (elapse d s)"] 2
  show ?case using dg by (simp add: span_def)
qed

lemma pause_end:
  assumes "waiting cs ps dl s \<or> flushed cs ps dl s" "dl \<le> now s + d"
  shows "flushed cs ps dl (elapse d s)"
  using assms waiting_fire(1) [of cs ps dl s d] flushed_elapse [of cs ps dl s d] by blast

lemma run_timed_append: "run_timed (gs @ hs) s = run_timed hs (run_timed gs s)"
  by (induction gs arbitrary: s) auto


section \<open>Quick commits merge, separate commits do not\<close>

lemma deliverable_append:
  "deliverable (gs @ hs) s \<longleftrightarrow> deliverable gs s \<and> deliverable hs (run_timed gs s)"
  by (induction gs arbitrary: s) auto

text \<open>
  C1: the aggregator is at rest; a text that does not trim to empty is committed (with the
  Enter key, or by a click that finds the send button enabled), followed by further such
  commits, other keystrokes and events elsewhere (responses arriving, clicks in the debug
  panel), each of them arriving less than the quiet period (4000 ms) after the last commit
  or keystroke before it. Then nothing is posted while they go on, and once the quiet
  period has passed since the last commit or keystroke, exactly one payload has been
  posted: the trimmed fragments, in commit order, joined by single spaces. The aggregator
  is then at rest again. Timer callbacks run without latency.
\<close>

theorem C1_quick_commits_one_payload:
  assumes "idle s" and "commit g0"
    and "\<forall>(d, g) \<in> set ((d0, g0) # gs). proper g"
    and "deliverable ((d0, g0) # gs) s"
    and "within INACTIVITY_MS gs"
    and "remaining INACTIVITY_MS gs \<le> q"
  shows "sent (run_timed ((d0, g0) # gs) s) = sent s
    \<and> sent (elapse q (run_timed ((d0, g0) # gs) s))
        = sent s @ [join sp (map trim (texts ((d0, g0) # gs)))]
    \<and> idle (elapse q (run_timed ((d0, g0) # gs) s))"
proof -
  let ?s1 = "perform g0 (elapse d0 s)"
  let ?sn = "run_timed gs ?s1"
  note e = idle_elapse [OF assms(1), of d0]
  have i: "aggregator_inv (elapse d0 s)" using e(1) by (rule idle_inv)
  have pc: "pendingChunks (elapse d0 s) = []" using e(1) by (simp add: idle_def)
  from assms(3,4) have p0: "proper g0" and rest: "\<forall>(d, g) \<in> set gs. proper g"
    and c0: "clickable g0 (elapse d0 s)" and dv: "deliverable gs ?s1"
    by simp_all
  from commit_gesture_waiting(1) [OF i assms(2) p0 c0, of d0]
    commit_gesture_waiting(2) [OF i assms(2) p0 c0] pc e(2)
  have "waiting (map trim (texts [(d0, g0)])) (sent s) (now ?s1 + INACTIVITY_MS) ?s1" by simp
  from quick_run [OF this rest assms(5) dv]
  have w: "waiting (map trim (texts ((d0, g0) # gs))) (sent s)
      (now ?sn + remaining INACTIVITY_MS gs) ?sn"
    using texts_Cons [of d0 g0 gs] by simp
  then have 1: "sent ?sn = sent s" by (simp add: waiting_def)
  from assms(6) have "now ?sn + remaining INACTIVITY_MS gs \<le> now ?sn + q" by simp
  from waiting_fire(1) [OF w this]
  have "sent (elapse q ?sn) = sent s @ [join sp (map trim (texts ((d0, g0) # gs)))]"
    and "idle (elapse q ?sn)"
    by (simp_all add: flushed_def)
  with 1 show ?thesis by simp
qed

theorem C1_witness:
  "sent (elapse 4000 (run_timed [(0, Commit (js ''hi'') (js ''09:30'')),
      (400, Elsewhere (FetchSettled 0 (Response True))),
      (600, Click (js '' there'') (js ''09:30''))] init)) = [js ''hi there'']"
proof -
  define gs :: "(nat \<times> gesture) list" where
    "gs = [(400, Elsewhere (FetchSettled 0 (Response True))),
      (600, Click (js '' there'') (js ''09:30''))]"
  have t: "trim (js ''hi'') = js ''hi''" "trim (js '' there'') = js ''there''"
    by (simp_all add: js_def trim_def is_ws_def)
  have j: "js ''hi'' @ sp @ js ''there'' = js ''hi there''"
    by (simp add: js_def sp_def)
  have s0: "sent init = []"
    by (simp add: sent_def init_def loadHistory_def fetch_def blank_def)
  have ne: "js ''hi'' \<noteq> []" "js ''there'' \<noteq> []" by (simp_all add: js_def)
  have dv: "deliverable ((0, Commit (js ''hi'') (js ''09:30'')) # gs) init"
    by (simp add: gs_def elapse_def due_def fire_at_def model_defs)
  show ?thesis
    unfolding gs_def [symmetric]
    using C1_quick_commits_one_payload [OF idle_init _ _ dv, of 4000]
    by (simp add: gs_def t j s0 ne INACTIVITY_MS_def del: perform.simps)
qed

text \<open>
  C2: the aggregator is at rest; a text that does not trim to empty is committed, at least
  the quiet period passes with no activity signal (events elsewhere may happen meanwhile), a
  second such text is committed, and again at least the quiet period passes. Then the first
  text is posted alone before the second commit, and in the end two payloads have been
  posted, each the trimmed text of one commit. Timer callbacks run without latency; a commit
  is made with the Enter key or by a click that finds the send button enabled.
\<close>

theorem C2_separate_commits_two_payloads:
  assumes "idle s" and "commit ga" and "commit gb" and "proper ga" and "proper gb"
    and "\<forall>(d, g) \<in> set gs1. outside g" and "\<forall>(d, g) \<in> set gs2. outside g"
    and "deliverable ((d0, ga) # gs1 @ [(d1, gb)]) s"
    and "INACTIVITY_MS \<le> span gs1 + d1" and "INACTIVITY_MS \<le> span gs2 + d2"
  shows "sent (elapse d1 (run_timed ((d0, ga) # gs1) s)) = sent s @ map trim (texts [(d0, ga)])
    \<and> sent (elapse d2 (run_timed ((d0, ga) # gs1 @ (d1, gb) # gs2) s))
        = sent s @ map trim (texts [(d0, ga), (d1, gb)])"
proof -
  let ?s1 = "perform ga (elapse d0 s)"
  let ?s2 = "run_timed gs1 ?s1"
  let ?s3 = "elapse d1 ?s2"
  let ?s4 = "perform gb ?s3"
  let ?s5 = "run_timed gs2 ?s4"
  let ?a = "map trim (texts [(d0, ga)])"
  let ?b = "map trim (texts [(d1, gb)])"
  from assms(2,4) have la: "join sp ?a = hd ?a" "?a = [hd ?a]" by (cases ga; simp)+
  from assms(3,5) have lb: "join sp ?b = hd ?b" "?b = [hd ?b]" by (cases gb; simp)+
  from assms(8) have ca: "clickable ga (elapse d0 s)" and cb: "clickable gb ?s3"
    by (simp_all add: deliverable_append)
  note e = idle_elapse [OF assms(1), of d0]
  have i: "aggregator_inv (elapse d0 s)" using e(1) by (rule idle_inv)
  have pc: "pendingChunks (elapse d0 s) = []" using e(1) by (simp add: idle_def)
  from commit_gesture_waiting(1) [OF i assms(2,4) ca, of d0]
    commit_gesture_waiting(2) [OF i assms(2,4) ca] pc e(2)
  have w1: "waiting ?a (sent s) (now ?s1 + INACTIVITY_MS) ?s1" by simp
  from pause_run [OF disjI1 [OF w1] assms(6)]
  have p2: "waiting ?a (sent s) (now ?s1 + INACTIVITY_MS) ?s2
      \<or> flushed ?a (sent s) (now ?s1 + INACTIVITY_MS) ?s2"
    and n2: "now ?s2 = now ?s1 + span gs1" by simp_all
  from n2 assms(9) have "now ?s1 + INACTIVITY_MS \<le> now ?s2 + d1" by simp
  from pause_end [OF p2 this] la
  have f3: "idle ?s3" "sent ?s3 = sent s @ ?a" by (simp_all add: flushed_def)
  have i3: "aggregator_inv ?s3" using f3(1) by (rule idle_inv)
  have p3: "pendingChunks ?s3 = []" using f3(1) by (simp add: idle_def)
  from commit_gesture_waiting(1) [OF i3 assms(3,5) cb, of d1]
    commit_gesture_waiting(2) [OF i3 assms(3,5) cb] p3 f3(2)
  have w4: "waiting ?b (sent s @ ?a) (now ?s4 + INACTIVITY_MS) ?s4" by simp
  from pause_run [OF disjI1 [OF w4] assms(7)]
  have p5: "waiting ?b (sent s @ ?a) (now ?s4 + INACTIVITY_MS) ?s5
      \<or> flushed ?b (sent s @ ?a) (now ?s4 + INACTIVITY_MS) ?s5"
    and n5: "now ?s5 = now ?s4 + span gs2" by simp_all
  from n5 assms(10) have "now ?s4 + INACTIVITY_MS \<le> now ?s5 + d2" by simp
  from pause_end [OF p5 this] lb
  have "sent (elapse d2 ?s5) = sent s @ ?a @ ?b" by (simp add: flushed_def)
  moreover have "texts [(d0, ga), (d1, gb)] = texts [(d0, ga)] @ texts [(d1, gb)]"
    by (rule texts_Cons)
  ultimately show ?thesis using f3(2) by (simp add: run_timed_append)
qed

theorem C2_witness:
  "sent (elapse 5000 (run_timed [(0, Commit (js ''a'') (js ''09:30'')),
      (4500, Elsewhere (FetchSettled 1 (Response False))),
      (500, Click (js ''b'') (js ''09:30''))] init)) = [js ''a'', js ''b'']"
proof -
  have t: "trim (js ''a'') = js ''a''" "trim (js ''b'') = js ''b''"
    by (simp_all add: js_def trim_def is_ws_def)
  have s0: "sent init = []"
    by (simp add: sent_def init_def loadHistory_def fetch_def blank_def)
  have ne: "js ''a'' \<noteq> []" "js ''b'' \<noteq> []" by (simp_all add: js_def)
  have dv: "deliverable ((0, Commit (js ''a'') (js ''09:30''))
      # [(4500, Elsewhere (FetchSettled 1 (Response False)))]
      @ [(500, Click (js ''b'') (js ''09:30''))]) init"
    by (simp add: elapse_def due_def fire_at_def model_defs)
  show ?thesis
    using C2_separate_commits_two_payloads [OF idle_init _ _ _ _ _ _ dv, of "[]" 5000]
    by (simp add: t s0 ne INACTIVITY_MS_def span_def outside_def del: perform.simps)
qed

section \<open>Reachable states\<close>

lemma reachable_inv: "aggregator_inv (run evs init)"
  using inv_init by (rule inv_run)

lemma inv_timers:
  assumes "aggregator_inv s"
  shows "length (timers s) \<le> 1" and "pendingChunks s \<noteq> [] \<longleftrightarrow> timers s \<noteq> []"
    and "\<forall>(h, dl) \<in> set (timers s). h < nextTimer s"
  using assms by (cases "pendingTimer s"; cases "timers s"; auto simp: aggregator_inv_def)+

lemma keystroke_is_bump:
  "\<not> (k = Enter \<and> \<not> shiftKey) \<Longrightarrow> step (KeyDown k shiftKey lt) s = bumpActivityTimer s"
  by (auto simp: keydown_def finish_def)

text \<open>
  C5: in every execution, between turns at most one timer is live, and the buffer is
  non-empty exactly when a timer is live. An activity signal that finds fragments buffered
  cancels the live timer and creates one with a new handle, due a full quiet period later.
  An activity signal that finds the buffer empty changes nothing: the state after it is the
  state before it, so it creates no timer and nothing can follow from it.
\<close>

theorem C5_one_timer_while_buffered:
  "let s = run evs init in
     length (timers s) \<le> 1
   \<and> (pendingChunks s \<noteq> [] \<longleftrightarrow> timers s \<noteq> [])
   \<and> (pendingChunks s \<noteq> [] \<longrightarrow>
        timers (bumpActivityTimer s) = [(nextTimer s, now s + INACTIVITY_MS)]
        \<and> pendingTimer (bumpActivityTimer s) = Some (nextTimer s)
        \<and> nextTimer s \<notin> fst ` set (timers s))
   \<and> (pendingChunks s = [] \<longrightarrow> bumpActivityTimer s = s)
   \<and> (\<not> (k = Enter \<and> \<not> shiftKey) \<longrightarrow>
        step (KeyDown k shiftKey localTime) s = bumpActivityTimer s)"
proof -
  let ?s = "run evs init"
  have i: "aggregator_inv ?s" by (rule reachable_inv)
  note t = inv_timers [OF i]
  have "pendingChunks ?s \<noteq> [] \<Longrightarrow>
        timers (bumpActivityTimer ?s) = [(nextTimer ?s, now ?s + INACTIVITY_MS)]
        \<and> pendingTimer (bumpActivityTimer ?s) = Some (nextTimer ?s)"
    using i by (simp add: bump_rearm)
  moreover have "nextTimer ?s \<notin> fst ` set (timers ?s)" using t(3) by fastforce
  moreover have "\<not> (k = Enter \<and> \<not> shiftKey) \<Longrightarrow>
        step (KeyDown k shiftKey localTime) ?s = bumpActivityTimer ?s"
    by (rule keystroke_is_bump)
  ultimately show ?thesis using t(1,2) by (simp add: Let_def bump_empty del: step.simps)
qed

theorem C5_witness:
  "timers (bumpActivityTimer (run [Input (js ''hi''), KeyDown Enter False (js ''09:30''), Tick 1000] init))
     = [(2, 5000)]
   \<and> step (KeyDown OtherKey False (js ''09:30'')) init = init"
proof -
  have 1: "pendingChunks (run [Input (js ''hi''), KeyDown Enter False (js ''09:30''), Tick 1000] init)
      = [js ''hi'']"
    "nextTimer (run [Input (js ''hi''), KeyDown Enter False (js ''09:30''), Tick 1000] init) = 2"
    "now (run [Input (js ''hi''), KeyDown Enter False (js ''09:30''), Tick 1000] init) = 1000"
    by (simp_all add: model_defs)
  have 2: "pendingChunks init = []" "run [] init = init" by (simp_all add: model_defs)
  show ?thesis
    using C5_one_timer_while_buffered
        [of "[Input (js ''hi''), KeyDown Enter False (js ''09:30''), Tick 1000]" OtherKey False "js ''09:30''"]
      C5_one_timer_while_buffered [of "[]" OtherKey False "js ''09:30''"]
    by (simp add: Let_def 1 2 INACTIVITY_MS_def)
qed

text \<open>
  C10: in every execution, every fragment in the buffer is non-empty and equal to its own
  trim. Whenever a timer is live the buffer is non-empty and its space-joined merge is
  non-empty after trimming, so when the callback of a due timer runs, the flush takes
  neither early return: it posts the merged text.
\<close>

theorem C10_flush_never_returns_early:
  "let s = run evs init in
     (\<forall>c \<in> set (pendingChunks s). c \<noteq> [] \<and> trim c = c)
   \<and> (\<forall>h dl. map_of (timers s) h = Some dl \<longrightarrow>
        pendingChunks s \<noteq> [] \<and> trim (join sp (pendingChunks s)) \<noteq> []
        \<and> (dl \<le> now s \<longrightarrow>
             requests (step (TimerFire h) s)
               = requests s @ [PostSend (trim (join sp (pendingChunks s)))]))"
proof -
  let ?s = "run evs init"
  have i: "aggregator_inv ?s" by (rule reachable_inv)
  then have tr: "\<forall>c \<in> set (pendingChunks ?s). c \<noteq> [] \<and> trim c = c"
    by (simp add: aggregator_inv_def)
  have "pendingChunks ?s \<noteq> [] \<and> trim (join sp (pendingChunks ?s)) \<noteq> []
        \<and> (dl \<le> now ?s \<longrightarrow>
             requests (step (TimerFire h) ?s)
               = requests ?s @ [PostSend (trim (join sp (pendingChunks ?s)))])"
    if m: "map_of (timers ?s) h = Some dl" for h dl
  proof -
    from m have "timers ?s \<noteq> []" by auto
    with inv_timers(2) [OF i] have ne: "pendingChunks ?s \<noteq> []" by simp
    note j = trim_join [OF ne tr]
    from flush_account(3) [OF i ne, of h] m j show ?thesis using ne by simp
  qed
  with tr show ?thesis by (simp add: Let_def)
qed

theorem C10_witness:
  "requests (step (TimerFire 1)
      (run [Input (js '' hi ''), KeyDown Enter False (js ''09:30''), Tick 4000] init))
   = [GetMessages, PostSend (js ''hi'')]"
proof -
  have 1: "timers (run [Input (js '' hi ''), KeyDown Enter False (js ''09:30''), Tick 4000] init)
      = [(1, 4000)]"
    "now (run [Input (js '' hi ''), KeyDown Enter False (js ''09:30''), Tick 4000] init) = 4000"
    "pendingChunks (run [Input (js '' hi ''), KeyDown Enter False (js ''09:30''), Tick 4000] init)
      = [js ''hi'']"
    "requests (run [Input (js '' hi ''), KeyDown Enter False (js ''09:30''), Tick 4000] init)
      = [GetMessages]"
    by (simp_all add: model_defs)
  have 2: "trim (js ''hi'') = js ''hi''" by (simp add: js_def trim_def is_ws_def)
  show ?thesis
    using C10_flush_never_returns_early
      [of "[Input (js '' hi ''), KeyDown Enter False (js ''09:30''), Tick 4000]"]
    by (simp add: Let_def 1 2 del: step.simps)
qed

section \<open>Clearing before dispatch\<close>

lemma flush_clears_first:
  assumes "pendingChunks s \<noteq> []" "trim (join sp (pendingChunks s)) \<noteq> []"
  shows "\<exists>s1. pendingChunks s1 = [] \<and> pendingTimer s1 = None
     \<and> requests s1 = requests s \<and> inflight s1 = inflight s
     \<and> flushPendingChunks s
         = fetch (PostSend (trim (join sp (pendingChunks s)))) SendAwaitFetch s1"
proof -
  let ?s1 = "showTypingIndicator (setSending True (s\<lparr>pendingChunks := [], pendingTimer := None\<rparr>))"
  have "pendingChunks ?s1 = []" "pendingTimer ?s1 = None" "requests ?s1 = requests s"
    "inflight ?s1 = inflight s"
    by (simp_all add: showTypingIndicator_def setSending_def)
  moreover have "flushPendingChunks s
      = fetch (PostSend (trim (join sp (pendingChunks s)))) SendAwaitFetch ?s1"
    using assms by (simp add: flushPendingChunks_def Let_def)
  ultimately show ?thesis by blast
qed

lemma inflight_commit_cycle:
  assumes "aggregator_inv s" "pendingChunks s = []" "trim t \<noteq> []" "INACTIVITY_MS \<le> q"
  shows "pendingChunks (perform (Commit t lt) s) = [trim t]"
    and "map snd (timers (perform (Commit t lt) s)) = [now s + INACTIVITY_MS]"
    and "sent (perform (Commit t lt) s) = sent s"
    and "sent (elapse q (perform (Commit t lt) s)) = sent s @ [trim t]"
    and "inflight (elapse q (perform (Commit t lt) s))
          = inflight s @ [(length (requests s), SendAwaitFetch)]"
proof -
  note c = commit_waiting [OF assms(1,3), of lt]
  from c(1) assms(2)
  have w: "waiting [trim t] (sent s) (now s + INACTIVITY_MS) (perform (Commit t lt) s)" by simp
  then show "pendingChunks (perform (Commit t lt) s) = [trim t]"
    and "map snd (timers (perform (Commit t lt) s)) = [now s + INACTIVITY_MS]"
    and "sent (perform (Commit t lt) s) = sent s"
    by (simp_all add: waiting_def)
  from assms(4) c(2)
  have due: "now s + INACTIVITY_MS \<le> now (perform (Commit t lt) s) + q" by simp
  from waiting_fire(1) [OF w due]
  show "sent (elapse q (perform (Commit t lt) s)) = sent s @ [trim t]"
    by (simp add: flushed_def)
  from waiting_fire(3) [OF w due] c(3,4)
  show "inflight (elapse q (perform (Commit t lt) s))
          = inflight s @ [(length (requests s), SendAwaitFetch)]" by simp
qed

text \<open>
  C3: a flush that posts resets the buffer and the timer handle first: the request is made
  from a state in which both are already cleared. In every execution the fragments committed
  so far are, in order, the fragments of the payloads posted so far (each payload the
  space-joined merge of one non-empty block of consecutive fragments) followed by the
  fragments still buffered, so no fragment goes into two payloads. A fragment committed
  while a request is in flight starts a buffer and a timer of its own, and is posted as a
  payload of its own a quiet period later, with the earlier request still in flight.
\<close>

theorem C3_clear_before_dispatch:
  "(pendingChunks s \<noteq> [] \<and> trim (join sp (pendingChunks s)) \<noteq> [] \<longrightarrow>
      (\<exists>s1. pendingChunks s1 = [] \<and> pendingTimer s1 = None
         \<and> requests s1 = requests s \<and> inflight s1 = inflight s
         \<and> flushPendingChunks s
             = fetch (PostSend (trim (join sp (pendingChunks s)))) SendAwaitFetch s1))
   \<and> (\<exists>blocks. concat blocks @ pendingChunks (run evs init) = committed evs init
         \<and> sent (run evs init) = map (join sp) blocks \<and> [] \<notin> set blocks)
   \<and> (let s' = run evs init in
        pendingChunks s' = [] \<and> (rid, SendAwaitFetch) \<in> set (inflight s')
          \<and> trim t \<noteq> [] \<and> INACTIVITY_MS \<le> q \<longrightarrow>
        pendingChunks (perform (Commit t lt) s') = [trim t]
        \<and> map snd (timers (perform (Commit t lt) s')) = [now s' + INACTIVITY_MS]
        \<and> sent (perform (Commit t lt) s') = sent s'
        \<and> sent (elapse q (perform (Commit t lt) s')) = sent s' @ [trim t]
        \<and> (rid, SendAwaitFetch) \<in> set (inflight (elapse q (perform (Commit t lt) s'))))"
proof -
  have 1: "pendingChunks s \<noteq> [] \<and> trim (join sp (pendingChunks s)) \<noteq> [] \<longrightarrow>
      (\<exists>s1. pendingChunks s1 = [] \<and> pendingTimer s1 = None
         \<and> requests s1 = requests s \<and> inflight s1 = inflight s
         \<and> flushPendingChunks s
             = fetch (PostSend (trim (join sp (pendingChunks s)))) SendAwaitFetch s1)"
    using flush_clears_first [of s] by blast
  have s0: "sent init = []" "pendingChunks init = []" by (simp_all add: model_defs)
  have 2: "\<exists>blocks. concat blocks @ pendingChunks (run evs init) = committed evs init
         \<and> sent (run evs init) = map (join sp) blocks \<and> [] \<notin> set blocks"
    using run_account [OF inv_init, of evs] by (simp add: s0)
  have 3: "pendingChunks (perform (Commit t lt) (run evs init)) = [trim t]
        \<and> map snd (timers (perform (Commit t lt) (run evs init))) = [now (run evs init) + INACTIVITY_MS]
        \<and> sent (perform (Commit t lt) (run evs init)) = sent (run evs init)
        \<and> sent (elapse q (perform (Commit t lt) (run evs init))) = sent (run evs init) @ [trim t]
        \<and> (rid, SendAwaitFetch) \<in> set (inflight (elapse q (perform (Commit t lt) (run evs init))))"
    if "pendingChunks (run evs init) = []" "(rid, SendAwaitFetch) \<in> set (inflight (run evs init))"
      "trim t \<noteq> []" "INACTIVITY_MS \<le> q"
    using inflight_commit_cycle [OF reachable_inv that(1,3,4), of lt] that(2) by simp
  from 1 2 3 show ?thesis by (simp only: Let_def) blast
qed

theorem C3_witness:
  "(\<exists>s1. pendingChunks s1 = [] \<and> pendingTimer s1 = None
      \<and> flushPendingChunks (run [Input (js ''a''), KeyDown Enter False (js ''09:30'')] init)
          = fetch (PostSend (js ''a'')) SendAwaitFetch s1)
   \<and> sent (elapse 4000 (perform (Commit (js ''b'') (js ''09:31''))
        (run [Input (js ''a''), KeyDown Enter False (js ''09:30''), Tick 4000, TimerFire 1] init)))
      = [js ''a'', js ''b'']
   \<and> (1, SendAwaitFetch) \<in> set (inflight (elapse 4000 (perform (Commit (js ''b'') (js ''09:31''))
        (run [Input (js ''a''), KeyDown Enter False (js ''09:30''), Tick 4000, TimerFire 1] init))))"
proof -
  define s0 where "s0 = run [Input (js ''a''), KeyDown Enter False (js ''09:30'')] init"
  define evs where
    "evs = [Input (js ''a''), KeyDown Enter False (js ''09:30''), Tick 4000, TimerFire 1]"
  have 0: "pendingChunks s0 = [js ''a'']" by (simp add: s0_def model_defs)
  have 1: "pendingChunks (run evs init) = []" "sent (run evs init) = [js ''a'']"
    "inflight (run evs init) = [(0, HistAwaitFetch), (1, SendAwaitFetch)]"
    by (simp_all add: evs_def model_defs)
  have 3: "trim (js ''a'') = js ''a''" "trim (js ''b'') = js ''b''" "js ''b'' \<noteq> []"
    "js ''a'' \<noteq> []"
    by (simp_all add: js_def trim_def is_ws_def)
  show ?thesis
    unfolding s0_def [symmetric] evs_def [symmetric]
    using C3_clear_before_dispatch [of s0 evs 1 "js ''b''" 4000 "js ''09:31''"]
    by (simp add: Let_def 0 1 3 INACTIVITY_MS_def del: perform.simps) blast
qed

section \<open>A flush while a request is in flight\<close>

text \<open>
  C4 does not hold as stated: a fragment committed with the Enter key while a request is in
  flight is flushed a quiet period later, and that flush posts a second payload while the
  send button is still disabled and the first request still awaits its response.
\<close>

theorem C4_counterexample:
  "sendBtnDisabled (run [Input (js ''a''), KeyDown Enter False (js ''09:30''), Tick 4000,
       TimerFire 1, Input (js ''b''), KeyDown Enter False (js ''09:30''), Tick 4000] init)
   \<and> inflight (run [Input (js ''a''), KeyDown Enter False (js ''09:30''), Tick 4000,
       TimerFire 1, Input (js ''b''), KeyDown Enter False (js ''09:30''), Tick 4000] init)
      = [(0, HistAwaitFetch), (1, SendAwaitFetch)]
   \<and> requests (run [Input (js ''a''), KeyDown Enter False (js ''09:30''), Tick 4000,
       TimerFire 1, Input (js ''b''), KeyDown Enter False (js ''09:30''), Tick 4000] init)
      = [GetMessages, PostSend (js ''a'')]
   \<and> requests (run [Input (js ''a''), KeyDown Enter False (js ''09:30''), Tick 4000,
       TimerFire 1, Input (js ''b''), KeyDown Enter False (js ''09:30''), Tick 4000,
       TimerFire 2] init)
      = [GetMessages, PostSend (js ''a''), PostSend (js ''b'')]
   \<and> inflight (run [Input (js ''a''), KeyDown Enter False (js ''09:30''), Tick 4000,
       TimerFire 1, Input (js ''b''), KeyDown Enter False (js ''09:30''), Tick 4000,
       TimerFire 2] init)
      = [(0, HistAwaitFetch), (1, SendAwaitFetch), (2, SendAwaitFetch)]"
  by (simp add: model_defs)

text \<open>
  C4, amended: a flush does not consult the in-flight flag. Whatever the flag is, a flush
  that finds fragments whose merge is non-empty after trimming posts the merge, empties the
  buffer and sets the flag. What the clearing guarantees is that a further request needs a
  further commit: from any reachable state with an empty buffer, an execution in which no
  fragment is committed posts nothing.
\<close>

theorem C4_flush_ignores_in_flight_flag:
  "(pendingChunks s \<noteq> [] \<and> trim (join sp (pendingChunks s)) \<noteq> [] \<longrightarrow>
      requests (flushPendingChunks (setSending b s))
        = requests s @ [PostSend (trim (join sp (pendingChunks s)))]
      \<and> pendingChunks (flushPendingChunks (setSending b s)) = []
      \<and> sendBtnDisabled (flushPendingChunks (setSending b s)))
   \<and> (pendingChunks (run evs init) = [] \<and> committed evs' (run evs init) = [] \<longrightarrow>
        sent (run evs' (run evs init)) = sent (run evs init)
        \<and> pendingChunks (run evs' (run evs init)) = [])"
proof -
  have "requests (flushPendingChunks (setSending b s))
        = requests s @ [PostSend (trim (join sp (pendingChunks s)))]
      \<and> pendingChunks (flushPendingChunks (setSending b s)) = []
      \<and> sendBtnDisabled (flushPendingChunks (setSending b s))"
    if "pendingChunks s \<noteq> []" "trim (join sp (pendingChunks s)) \<noteq> []"
    using that
    by (simp add: flushPendingChunks_def Let_def setSending_def fetch_def showTypingIndicator_def)
  moreover have "sent (run evs' (run evs init)) = sent (run evs init)
        \<and> pendingChunks (run evs' (run evs init)) = []"
    if "pendingChunks (run evs init) = []" "committed evs' (run evs init) = []"
    using quiet_run [OF reachable_inv that] .
  ultimately show ?thesis by blast
qed

theorem C4_witness:
  "requests (flushPendingChunks (setSending True
      (run [Input (js ''a''), KeyDown Enter False (js ''09:30'')] init)))
     = [GetMessages, PostSend (js ''a'')]
   \<and> sent (run [KeyDown OtherKey False (js ''09:31''), ClickSend (js ''09:31''), Tick 4000,
         TimerFire 1, TimerFire 2, Input (js ''b''), ClickSend (js ''09:31''), Tick 4000]
       (run [Input (js ''a''), KeyDown Enter False (js ''09:30''), Tick 4000, TimerFire 1] init))
     = [js ''a'']"
proof -
  define s0 where "s0 = run [Input (js ''a''), KeyDown Enter False (js ''09:30'')] init"
  define evs where
    "evs = [Input (js ''a''), KeyDown Enter False (js ''09:30''), Tick 4000, TimerFire 1]"
  define evs' where
    "evs' = [KeyDown OtherKey False (js ''09:31''), ClickSend (js ''09:31''), Tick 4000,
         TimerFire 1, TimerFire 2, Input (js ''b''), ClickSend (js ''09:31''), Tick 4000]"
  have 0: "pendingChunks s0 = [js ''a'']" "requests s0 = [GetMessages]"
    by (simp_all add: s0_def model_defs)
  have 1: "pendingChunks (run evs init) = []" "sent (run evs init) = [js ''a'']"
    by (simp_all add: evs_def model_defs)
  have 2: "committed evs' (run evs init) = []"
    by (simp add: evs_def evs'_def model_defs)
  have 3: "trim (js ''a'') = js ''a''" "js ''a'' \<noteq> []"
    by (simp_all add: js_def trim_def is_ws_def)
  show ?thesis
    unfolding s0_def [symmetric] evs_def [symmetric] evs'_def [symmetric]
    using C4_flush_ignores_in_flight_flag [of s0 True evs evs']
    by (simp add: 0 1 2 3)
qed

section \<open>Blank input and bot replies\<close>

text \<open>
  C8: a commit whose input trims to empty returns at once and leaves the whole state as it
  was: nothing is buffered, no bubble is added, no timer is created, nothing is logged. A
  click with such an input changes nothing; an Enter keystroke with such an input does what
  any other keystroke does and no more. A flush whose merged text trims to empty makes no
  request, suspends nothing, logs nothing and leaves the thread and the send button alone.
\<close>

theorem C8_blank_commit_and_blank_flush_ignored:
  "(trim (inputValue s) = [] \<longrightarrow>
      sendMessage localTime s = Returned s
      \<and> step (ClickSend localTime) s = s
      \<and> step (KeyDown Enter False localTime) s = step (KeyDown OtherKey False localTime) s)
   \<and> (trim (join sp (pendingChunks s)) = [] \<longrightarrow>
      requests (flushPendingChunks s) = requests s
      \<and> inflight (flushPendingChunks s) = inflight s
      \<and> console (flushPendingChunks s) = console s
      \<and> messages (flushPendingChunks s) = messages s
      \<and> sendBtnDisabled (flushPendingChunks s) = sendBtnDisabled s
      \<and> typingBubbleEl (flushPendingChunks s) = typingBubbleEl s)"
proof -
  have "sendMessage localTime s = Returned s
      \<and> step (ClickSend localTime) s = s
      \<and> step (KeyDown Enter False localTime) s = step (KeyDown OtherKey False localTime) s"
    if "trim (inputValue s) = []"
    using that by (simp add: sendMessage_blank finish_def keydown_def input_bump)
  moreover have "requests (flushPendingChunks s) = requests s
      \<and> inflight (flushPendingChunks s) = inflight s
      \<and> console (flushPendingChunks s) = console s
      \<and> messages (flushPendingChunks s) = messages s
      \<and> sendBtnDisabled (flushPendingChunks s) = sendBtnDisabled s
      \<and> typingBubbleEl (flushPendingChunks s) = typingBubbleEl s"
    if "trim (join sp (pendingChunks s)) = []"
    using that by (simp add: flushPendingChunks_def)
  ultimately show ?thesis by blast
qed

theorem C8_witness:
  "sendMessage (js ''09:30'') (step (Input (js ''   '')) init)
     = Returned (step (Input (js ''   '')) init)
   \<and> requests (flushPendingChunks (init\<lparr>pendingChunks := [js '' '', js '' '']\<rparr>)) = [GetMessages]"
proof -
  define s0 where "s0 = step (Input (js ''   '')) init"
  define s1 where "s1 = init\<lparr>pendingChunks := [js '' '', js '' '']\<rparr>"
  have 0: "trim (inputValue s0) = []" by (simp add: s0_def js_def trim_def is_ws_def)
  have 1: "trim (join sp (pendingChunks s1)) = []" "requests s1 = [GetMessages]"
    by (simp_all add: s1_def model_defs)
  show ?thesis
    unfolding s0_def [symmetric] s1_def [symmetric]
    using C8_blank_commit_and_blank_flush_ignored [of s0 "js ''09:30''"]
      C8_blank_commit_and_blank_flush_ignored [of s1 "js ''09:30''"]
    by (simp add: 0 1)
qed






section \<open>The typing indicator\<close>

lemma typing_appendMessage:
  "TypingRow \<in> set (messages (state_of (appendMessage m s))) \<longleftrightarrow> TypingRow \<in> set (messages s)"
  by (auto simp: appendMessage_def createMessageBubble_def Let_def
      split: option.splits jsval.splits if_splits)

lemma typing_forEach:
  "TypingRow \<in> set (messages (state_of (forEach_appendMessage ms s)))
     \<longleftrightarrow> TypingRow \<in> set (messages s)"
proof (induction ms arbitrary: s)
  case Nil
  show ?case by simp
next
  case (Cons a ms)
  show ?case
  proof (cases "appendMessage a s")
    case (Returned s')
    with typing_appendMessage [of a s] Cons.IH [of s'] show ?thesis by simp
  next
    case (Raised s')
    with typing_appendMessage [of a s] show ?thesis by simp
  qed
qed

lemma typing_inv_append: "typing_inv s \<Longrightarrow> typing_inv (state_of (appendMessage m s))"
  using typing_appendMessage [of m s] off_thread_fields(6) [OF appendMessage_off [of m s]]
  by (simp add: typing_inv_def)

lemma typing_inv_simple:
  "typing_inv s \<Longrightarrow> typing_inv (bumpActivityTimer s)"
  "typing_inv s \<Longrightarrow> typing_inv (setSending b s)"
  "typing_inv s \<Longrightarrow> typing_inv (console_error l s)"
  "typing_inv s \<Longrightarrow> typing_inv (await rid k s)"
  "typing_inv s \<Longrightarrow> typing_inv (resume rid s)"
  "typing_inv s \<Longrightarrow> typing_inv (fetch r k s)"
  "typing_inv s \<Longrightarrow> typing_inv (clearTimeout h s)"
  "typing_inv s \<Longrightarrow> typing_inv (closeDebugPanel s)"
  "typing_inv s \<Longrightarrow> typing_inv (debug_catch s)"
  "typing_inv (showTypingIndicator s)"
  "typing_inv s \<Longrightarrow> typing_inv (hideTypingIndicator s)"
  "typing_inv s \<Longrightarrow> TypingRow \<notin> set (messages (hideTypingIndicator s))"
  by (auto simp: typing_inv_def bumpActivityTimer_def setTimeout_def clearTimeout_def Let_def
      setSending_def console_error_def await_def resume_def fetch_def closeDebugPanel_def
      debug_catch_def showTypingIndicator_def hideTypingIndicator_def split: option.splits)

lemma typing_inv_catch: "typing_inv s \<Longrightarrow> typing_inv (flush_catch s)"
  by (simp add: flush_catch_def typing_inv_simple)

lemma typing_inv_sendMessage: "typing_inv s \<Longrightarrow> typing_inv (finish (sendMessage lt s))"
  by (cases "trim (inputValue s) = []")
    (simp_all add: sendMessage_blank sendMessage_commit finish_def typing_inv_simple,
     simp add: typing_inv_def bumpActivityTimer_def setTimeout_def clearTimeout_def Let_def
       split: option.splits)

lemma typing_inv_step: "typing_inv s \<Longrightarrow> typing_inv (step e s)"
proof (cases e)
  case (Input v)
  assume "typing_inv s"
  with Input show ?thesis by (simp add: typing_inv_def)
next
  case (KeyDown k sh lt)
  assume "typing_inv s"
  then have b: "typing_inv (bumpActivityTimer s)" by (rule typing_inv_simple)
  then have "typing_inv (finish (sendMessage lt (bumpActivityTimer s)))"
    by (rule typing_inv_sendMessage)
  moreover have "finish (Returned (bumpActivityTimer s)) = bumpActivityTimer s"
    by (simp add: finish_def)
  ultimately show ?thesis using b KeyDown by (simp add: keydown_def Let_def)
next
  case (ClickSend lt)
  assume a: "typing_inv s"
  then have "typing_inv (finish (sendMessage lt s))" by (rule typing_inv_sendMessage)
  with a ClickSend show ?thesis by simp
next
  case (TimerFire h)
  assume a: "typing_inv s"
  then have c: "typing_inv (clearTimeout h s)" by (rule typing_inv_simple)
  then have "typing_inv (clearTimeout h s\<lparr>pendingChunks := [], pendingTimer := None\<rparr>)"
    by (simp add: typing_inv_def)
  with c have "typing_inv (flushPendingChunks (clearTimeout h s))"
    by (simp add: flushPendingChunks_def Let_def typing_inv_simple)
  with a TimerFire show ?thesis by (simp split: option.split)
next
  case (Tick d)
  assume "typing_inv s"
  with Tick show ?thesis by (simp add: typing_inv_def)
next
  case (FetchSettled rid r)
  assume "typing_inv s"
  then have a: "typing_inv s" "typing_inv (resume rid s)" by (simp_all add: typing_inv_simple)
  with FetchSettled show ?thesis
    by (simp add: loadHistory_fetched_def flushPendingChunks_fetched_def
        openDebugPanel_fetched_def typing_inv_simple typing_inv_catch Let_def
        split: option.split cont.split fetch_result.split)
next
  case (BodySettled rid b raises)
  assume "typing_inv s"
  then have a: "typing_inv s" and r: "typing_inv (resume rid s)"
    by (simp_all add: typing_inv_simple)
  have h: "typing_inv (loadHistory_parsed b (resume rid s))"
  proof -
    let ?r = "resume rid s\<lparr>messages := []\<rparr>"
    have "typing_inv ?r" by (simp add: typing_inv_def)
    have "typing_inv (state_of (forEach_appendMessage ms ?r))" for ms
      using typing_forEach [of ms ?r] by (simp add: typing_inv_def)
    then have "\<And>ms x. forEach_appendMessage ms ?r = Returned x \<Longrightarrow> typing_inv x"
      "\<And>ms x. forEach_appendMessage ms ?r = Raised x
         \<Longrightarrow> typing_inv (console_error ErrorLoadingHistory x)"
      by (metis state_of.simps(1), metis state_of.simps(2) typing_inv_simple(3))
    with r \<open>typing_inv ?r\<close> show ?thesis
      by (auto simp: loadHistory_parsed_def Let_def typing_inv_simple
          split: body_result.split jsval.split outcome.split)
  qed
  have f: "typing_inv (flushPendingChunks_parsed b (resume rid s))"
  proof -
    have "typing_inv (state_of (appendMessage m (resume rid s)))" for m
      using r by (rule typing_inv_append)
    then have "\<And>m x. appendMessage m (resume rid s) = Returned x
         \<Longrightarrow> typing_inv (setSending False x)"
      "\<And>m x. appendMessage m (resume rid s) = Raised x \<Longrightarrow> typing_inv (flush_catch x)"
      by (metis state_of.simps(1) typing_inv_simple(2), metis state_of.simps(2) typing_inv_catch)
    with r show ?thesis
      by (auto simp: flushPendingChunks_parsed_def typing_inv_simple typing_inv_catch
          split: body_result.split option.split outcome.split)
  qed
  have d: "typing_inv (openDebugPanel_parsed b raises (resume rid s))"
  proof -
    have "typing_inv (resume rid s\<lparr>debugBody := PanelContent x\<rparr>)" for x
      using r by (simp add: typing_inv_def)
    with r show ?thesis
      by (simp add: openDebugPanel_parsed_def typing_inv_simple split: body_result.split)
  qed
  from a h f d BodySettled show ?thesis by (simp split: option.split cont.split)
next
  case ClickDebug
  assume "typing_inv s"
  then have "typing_inv (s\<lparr>debugOverlayHidden := False, debugBody := PanelLoading\<rparr>)"
    by (simp add: typing_inv_def)
  with ClickDebug show ?thesis by (simp add: openDebugPanel_def typing_inv_simple)
next
  case ClickDebugClose
  assume "typing_inv s"
  with ClickDebugClose show ?thesis by (simp add: typing_inv_simple)
next
  case (ClickOverlay b)
  assume "typing_inv s"
  with ClickOverlay show ?thesis by (simp add: typing_inv_simple)
qed

lemma typing_inv_run: "typing_inv s \<Longrightarrow> typing_inv (run evs s)"
proof (induction evs arbitrary: s)
  case Nil
  then show ?case by (simp add: run_def)
next
  case (Cons e evs)
  from Cons.prems have "typing_inv (step e s)" by (rule typing_inv_step)
  then have "typing_inv (run evs (step e s))" by (rule Cons.IH)
  then show ?case by (simp add: run_Cons)
qed

lemma reachable_typing: "typing_inv (run evs init)"
proof -
  have "typing_inv init" by (simp add: typing_inv_def model_defs)
  then show ?thesis by (rule typing_inv_run)
qed

section \<open>Failed sends\<close>

lemma disabled_sendMessage:
  "sendBtnDisabled (finish (sendMessage lt s)) = sendBtnDisabled s"
  by (cases "trim (inputValue s) = []")
    (simp_all add: sendMessage_blank sendMessage_commit finish_def disabled_bump)

lemma disabled_frames:
  "sendBtnDisabled (hideTypingIndicator s) = sendBtnDisabled s"
  "sendBtnDisabled (showTypingIndicator s) = sendBtnDisabled s"
  "sendBtnDisabled (console_error l s) = sendBtnDisabled s"
  "sendBtnDisabled (await rid k s) = sendBtnDisabled s"
  "sendBtnDisabled (resume rid s) = sendBtnDisabled s"
  "sendBtnDisabled (fetch r k s) = sendBtnDisabled s"
  "sendBtnDisabled (clearTimeout h s) = sendBtnDisabled s"
  "sendBtnDisabled (closeDebugPanel s) = sendBtnDisabled s"
  "sendBtnDisabled (debug_catch s) = sendBtnDisabled s"
  "sendBtnDisabled (openDebugPanel s) = sendBtnDisabled s"
  "sendBtnDisabled (setSending b s) = b"
  by (simp_all add: hideTypingIndicator_def showTypingIndicator_def console_error_def await_def
      resume_def fetch_def clearTimeout_def closeDebugPanel_def debug_catch_def
      openDebugPanel_def setSending_def)

lemma disabled_flush: "sendBtnDisabled s \<Longrightarrow> sendBtnDisabled (flushPendingChunks s)"
  by (simp add: flushPendingChunks_def Let_def disabled_frames)

lemma disabled_history_parsed:
  "sendBtnDisabled (loadHistory_parsed b s) = sendBtnDisabled s"
proof -
  have "sendBtnDisabled (state_of (forEach_appendMessage ms (s\<lparr>messages := []\<rparr>)))
      = sendBtnDisabled s" for ms
    using off_thread_fields(5) [OF forEach_off [of ms "s\<lparr>messages := []\<rparr>"]] by simp
  then have "\<And>ms x. forEach_appendMessage ms (s\<lparr>messages := []\<rparr>) = Returned x
        \<Longrightarrow> sendBtnDisabled x = sendBtnDisabled s"
     "\<And>ms x. forEach_appendMessage ms (s\<lparr>messages := []\<rparr>) = Raised x
        \<Longrightarrow> sendBtnDisabled x = sendBtnDisabled s"
    by (metis state_of.simps(1), metis state_of.simps(2))
  then show ?thesis
    by (auto simp: loadHistory_parsed_def Let_def disabled_frames
        split: body_result.split jsval.split outcome.split)
qed

lemma stays_disabled:
  assumes "sendBtnDisabled s" "\<not> send_completes e s"
  shows "sendBtnDisabled (step e s)"
proof (cases e)
  case (KeyDown k sh lt)
  have "finish (Returned (bumpActivityTimer s)) = bumpActivityTimer s" by (simp add: finish_def)
  with KeyDown assms(1) disabled_sendMessage [of lt "bumpActivityTimer s"] show ?thesis
    by (simp add: keydown_def Let_def disabled_bump)
next
  case (ClickSend lt)
  with assms(1) show ?thesis by simp
next
  case (TimerFire h)
  have "sendBtnDisabled (flushPendingChunks (clearTimeout h s))"
    using assms(1) by (intro disabled_flush) (simp add: disabled_frames)
  with TimerFire assms(1) show ?thesis by (simp split: option.split)
next
  case (FetchSettled rid r)
  with assms show ?thesis
    by (auto simp: loadHistory_fetched_def flushPendingChunks_fetched_def
        openDebugPanel_fetched_def disabled_frames Let_def
        split: option.split cont.split fetch_result.split)
next
  case (BodySettled rid b raises)
  with assms show ?thesis
    by (auto simp: disabled_history_parsed openDebugPanel_parsed_def disabled_frames
        split: option.split cont.split body_result.split)
qed (use assms in \<open>simp_all add: disabled_frames\<close>)

lemma failed_send_effect:
  assumes "typing_inv s0" "s' = flush_catch s0
     \<or> s' = setSending False (setSending False (console_error FailedToSend (hideTypingIndicator s0)))"
  shows "\<not> sendBtnDisabled s'" "\<not> typingBubbleEl s'" "TypingRow \<notin> set (messages s')"
    "bubbles s' = bubbles s0" "requests s' = requests s0" "agg s' = agg s0"
    "console s' = console s0 @ [FailedToSend] \<or> console s' = console s0 @ [ErrorSendingMessage]"
    "inflight s' = inflight s0"
proof -
  have m: "messages s' = messages (hideTypingIndicator s0)"
    using assms(2) by (auto simp: flush_catch_def setSending_def console_error_def)
  show "TypingRow \<notin> set (messages s')"
    unfolding m using assms(1) by (rule typing_inv_simple)
  show "bubbles s' = bubbles s0" using m by (simp add: bubbles_def hideTypingIndicator_def)
  show "\<not> sendBtnDisabled s'" "\<not> typingBubbleEl s'" "requests s' = requests s0" "agg s' = agg s0"
    "console s' = console s0 @ [FailedToSend] \<or> console s' = console s0 @ [ErrorSendingMessage]"
    "inflight s' = inflight s0"
    using assms(2)
    by (cases "typingBubbleEl s0";
        auto simp: flush_catch_def setSending_def console_error_def hideTypingIndicator_def agg_def)+
qed

lemma send_failed_step:
  assumes "send_failed e s"
  shows "\<exists>rid. step e s = flush_catch (resume rid s)
     \<or> step e s = setSending False (setSending False
           (console_error FailedToSend (hideTypingIndicator (resume rid s))))"
proof (cases e)
  case (FetchSettled rid r)
  with assms show ?thesis
    by (cases r) (auto simp: flushPendingChunks_fetched_def Let_def)
next
  case (BodySettled rid b raises)
  show ?thesis
  proof (cases b)
    case BodyRejected
    with BodySettled assms show ?thesis by (auto simp: flushPendingChunks_parsed_def)
  next
    case (Body data)
    have "x = resume rid s" if "appendMessage m (resume rid s) = Raised x" for m x
      using that by (rule appendMessage_raised)
    with Body BodySettled assms show ?thesis
      by (auto simp: flushPendingChunks_parsed_def split: option.splits outcome.splits)
  qed
qed (use assms in simp_all)


text \<open>
  C6 does not hold as stated: with two requests in flight, the end of the first one enables
  the send button again while the second still awaits its response.
\<close>

theorem C6_counterexample:
  "\<not> sendBtnDisabled (run [Input (js ''a''), KeyDown Enter False (js ''09:30''), Tick 4000,
       TimerFire 1, Input (js ''b''), KeyDown Enter False (js ''09:30''), Tick 4000,
       TimerFire 2, FetchSettled 1 Rejected] init)
   \<and> inflight (run [Input (js ''a''), KeyDown Enter False (js ''09:30''), Tick 4000,
       TimerFire 1, Input (js ''b''), KeyDown Enter False (js ''09:30''), Tick 4000,
       TimerFire 2, FetchSettled 1 Rejected] init)
      = [(0, HistAwaitFetch), (2, SendAwaitFetch)]"
  by (simp add: model_defs)

text \<open>
  C6, amended: in every execution, a flush that posts disables the send button and calls
  \<open>showTypingIndicator\<close>: afterwards \<open>typingBubbleEl\<close> is set, and the indicator row
  has been added at the end of the thread if \<open>typingBubbleEl\<close> was not set before; if it
  was set, the thread is left as it is (so a flush that follows the emptying of the thread
  by the history response, while an earlier indicator was up, shows no indicator). The
  button stays disabled until an event ends a send request (this one or another one in
  flight). When a send fails (the request is rejected, the response is not a success, the
  body cannot be read or handling it raises), the button is enabled, \<open>typingBubbleEl\<close>
  is cleared and no indicator row is in the thread, one error is logged, no message row is
  added to or removed from the thread, no request is made, and the buffer and the timer are
  left as they were.
\<close>

theorem C6_failed_send_returns_to_idle:
  "let s = run evs init in
     (\<forall>h dl. map_of (timers s) h = Some dl \<and> dl \<le> now s \<longrightarrow>
        sendBtnDisabled (step (TimerFire h) s) \<and> typingBubbleEl (step (TimerFire h) s)
        \<and> messages (step (TimerFire h) s)
            = (if typingBubbleEl s then messages s else messages s @ [TypingRow]))
   \<and> (sendBtnDisabled s \<and> \<not> send_completes e s \<longrightarrow> sendBtnDisabled (step e s))
   \<and> (send_failed e s \<longrightarrow>
        \<not> sendBtnDisabled (step e s) \<and> \<not> typingBubbleEl (step e s)
        \<and> TypingRow \<notin> set (messages (step e s))
        \<and> bubbles (step e s) = bubbles s
        \<and> requests (step e s) = requests s
        \<and> agg (step e s) = agg s
        \<and> (console (step e s) = console s @ [FailedToSend]
           \<or> console (step e s) = console s @ [ErrorSendingMessage]))"
proof -
  let ?s = "run evs init"
  have i: "aggregator_inv ?s" by (rule reachable_inv)
  have 1: "sendBtnDisabled (step (TimerFire h) ?s) \<and> typingBubbleEl (step (TimerFire h) ?s)
        \<and> messages (step (TimerFire h) ?s)
            = (if typingBubbleEl ?s then messages ?s else messages ?s @ [TypingRow])"
    if m: "map_of (timers ?s) h = Some dl" "dl \<le> now ?s" for h dl
  proof -
    from m(1) have "timers ?s \<noteq> []" by auto
    with inv_timers(2) [OF i] have ne: "pendingChunks (clearTimeout h ?s) \<noteq> []"
      by (simp add: clearTimeout_def)
    have tr: "\<forall>c \<in> set (pendingChunks (clearTimeout h ?s)). c \<noteq> [] \<and> trim c = c"
      using i by (simp add: aggregator_inv_def clearTimeout_def)
    have c: "typingBubbleEl (clearTimeout h ?s) = typingBubbleEl ?s"
      "messages (clearTimeout h ?s) = messages ?s"
      by (simp_all add: clearTimeout_def)
    show ?thesis
      using m by (simp add: flush_dispatch [OF ne tr] fetch_def showTypingIndicator_def
          setSending_def c)
  qed
  have 2: "sendBtnDisabled (step e ?s)" if "sendBtnDisabled ?s" "\<not> send_completes e ?s"
    using that by (rule stays_disabled)
  have 3: "\<not> sendBtnDisabled (step e ?s) \<and> \<not> typingBubbleEl (step e ?s)
        \<and> TypingRow \<notin> set (messages (step e ?s))
        \<and> bubbles (step e ?s) = bubbles ?s
        \<and> requests (step e ?s) = requests ?s
        \<and> agg (step e ?s) = agg ?s
        \<and> (console (step e ?s) = console ?s @ [FailedToSend]
           \<or> console (step e ?s) = console ?s @ [ErrorSendingMessage])"
    if f: "send_failed e ?s"
  proof -
    from send_failed_step [OF f] obtain rid where
      r: "step e ?s = flush_catch (resume rid ?s)
         \<or> step e ?s = setSending False (setSending False
             (console_error FailedToSend (hideTypingIndicator (resume rid ?s))))" ..
    have t: "typing_inv (resume rid ?s)"
      using reachable_typing [of evs] by (rule typing_inv_simple)
    have b: "bubbles (resume rid ?s) = bubbles ?s" "console (resume rid ?s) = console ?s"
      by (simp_all add: bubbles_def resume_def)
    from failed_send_effect [OF t r] b show ?thesis by simp
  qed
  from 1 2 3 show ?thesis by (simp only: Let_def) blast
qed

theorem C6_witness:
  "sendBtnDisabled (step (TimerFire 1)
      (run [Input (js ''a''), KeyDown Enter False (js ''09:30''), Tick 4000] init))
   \<and> messages (step (TimerFire 1)
      (run [Input (js ''a''), KeyDown Enter False (js ''09:30''), Tick 4000] init))
     = [Bubble (JStr (js ''user'')) (JStr (js ''a'')) (JStr (js ''09:30'')), TypingRow]
   \<and> typingBubbleEl (step (TimerFire 2)
      (run [Input (js ''a''), KeyDown Enter False (js ''09:30''), Tick 4000, TimerFire 1,
            FetchSettled 0 (Response True), BodySettled 0 (Body (JArr [])) False,
            Input (js ''b''), KeyDown Enter False (js ''09:31''), Tick 4000] init))
   \<and> messages (step (TimerFire 2)
      (run [Input (js ''a''), KeyDown Enter False (js ''09:30''), Tick 4000, TimerFire 1,
            FetchSettled 0 (Response True), BodySettled 0 (Body (JArr [])) False,
            Input (js ''b''), KeyDown Enter False (js ''09:31''), Tick 4000] init))
     = [Bubble (JStr (js ''user'')) (JStr (js ''b'')) (JStr (js ''09:31''))]
   \<and> sendBtnDisabled (step (KeyDown OtherKey False (js ''09:31''))
      (run [Input (js ''a''), KeyDown Enter False (js ''09:30''), Tick 4000, TimerFire 1] init))
   \<and> \<not> sendBtnDisabled (step (FetchSettled 1 (Response False))
      (run [Input (js ''a''), KeyDown Enter False (js ''09:30''), Tick 4000, TimerFire 1] init))
   \<and> bubbles (step (FetchSettled 1 (Response False))
      (run [Input (js ''a''), KeyDown Enter False (js ''09:30''), Tick 4000, TimerFire 1] init))
     = [Bubble (JStr (js ''user'')) (JStr (js ''a'')) (JStr (js ''09:30''))]"
proof -
  define evs0 where "evs0 = [Input (js ''a''), KeyDown Enter False (js ''09:30''), Tick 4000]"
  define evs1 where
    "evs1 = [Input (js ''a''), KeyDown Enter False (js ''09:30''), Tick 4000, TimerFire 1]"
  define evs2 where
    "evs2 = [Input (js ''a''), KeyDown Enter False (js ''09:30''), Tick 4000, TimerFire 1,
            FetchSettled 0 (Response True), BodySettled 0 (Body (JArr [])) False,
            Input (js ''b''), KeyDown Enter False (js ''09:31''), Tick 4000]"
  have 0: "timers (run evs0 init) = [(1, 4000)]" "now (run evs0 init) = 4000"
    "\<not> typingBubbleEl (run evs0 init)"
    "messages (run evs0 init) = [Bubble (JStr (js ''user'')) (JStr (js ''a'')) (JStr (js ''09:30''))]"
    by (simp_all add: evs0_def model_defs)
  have 1: "sendBtnDisabled (run evs1 init)"
    "inflight (run evs1 init) = [(0, HistAwaitFetch), (1, SendAwaitFetch)]"
    "bubbles (run evs1 init) = [Bubble (JStr (js ''user'')) (JStr (js ''a'')) (JStr (js ''09:30''))]"
    by (simp_all add: evs1_def bubbles_def model_defs)
  have 2: "timers (run evs2 init) = [(2, 8000)]" "now (run evs2 init) = 8000"
    "typingBubbleEl (run evs2 init)"
    "messages (run evs2 init) = [Bubble (JStr (js ''user'')) (JStr (js ''b'')) (JStr (js ''09:31''))]"
    by (simp_all add: evs2_def model_defs)
  show ?thesis
    unfolding evs0_def [symmetric] evs1_def [symmetric] evs2_def [symmetric]
    using C6_failed_send_returns_to_idle [of evs0 "TimerFire 1"]
      C6_failed_send_returns_to_idle [of evs2 "TimerFire 2"]
      C6_failed_send_returns_to_idle [of evs1 "KeyDown OtherKey False (js ''09:31'')"]
      C6_failed_send_returns_to_idle [of evs1 "FetchSettled 1 (Response False)"]
    by (simp add: Let_def 0 1 2 del: step.simps)
qed

section \<open>Failed history and state fetches\<close>

lemma forEach_raised:
  "forEach_appendMessage ms s = Raised s2 \<Longrightarrow>
   \<exists>k < length ms. forEach_appendMessage (take k ms) s = Returned s2
      \<and> appendMessage (ms ! k) s2 = Raised s2"
proof (induction ms arbitrary: s)
  case Nil
  then show ?case by simp
next
  case (Cons a ms)
  show ?case
  proof (cases "appendMessage a s")
    case (Raised s')
    with Cons.prems have "s2 = s'" by simp
    moreover from Raised have "s' = s" by (rule appendMessage_raised)
    ultimately have "forEach_appendMessage (take 0 (a # ms)) s = Returned s2
      \<and> appendMessage ((a # ms) ! 0) s2 = Raised s2" using Raised by simp
    then show ?thesis by blast
  next
    case (Returned s')
    with Cons.prems have "forEach_appendMessage ms s' = Raised s2" by simp
    from Cons.IH [OF this] obtain k where k: "k < length ms"
      "forEach_appendMessage (take k ms) s' = Returned s2" "appendMessage (ms ! k) s2 = Raised s2"
      by blast
    with Returned have "Suc k < length (a # ms)
      \<and> forEach_appendMessage (take (Suc k) (a # ms)) s = Returned s2
      \<and> appendMessage ((a # ms) ! Suc k) s2 = Raised s2" by simp
    then show ?thesis by blast
  qed
qed

text \<open>
  C9 does not hold as stated: when the history fetch fails, the error is logged and nothing
  else happens. The thread, empty at page load, stays empty: no placeholder is put into it
  (nor into the debug panel).
\<close>

theorem C9_counterexample:
  "console (run [FetchSettled 0 Rejected] init) = [ErrorLoadingHistory]
   \<and> messages (run [FetchSettled 0 Rejected] init) = []
   \<and> debugBody (run [FetchSettled 0 Rejected] init) = PanelInitial"
  by (simp add: model_defs)

text \<open>
  C9, amended: when the state fetch fails (the request is rejected, the response is not a
  success, the body cannot be read, or rendering it raises), one error is logged and the
  debug panel shows the error placeholder. When the history fetch fails, one error is
  logged and nothing is shown in its place: if the request is rejected or the body cannot be
  read, the state is otherwise unchanged; if the body is not an array, the thread has been
  emptied; if rendering a record raises, the thread holds the rows of the records before
  it. No exception leaves either handler.
\<close>

theorem C9_failed_fetches_are_logged:
  "(map_of (inflight s) rid = Some StateAwaitFetch \<and> r \<noteq> Response True \<longrightarrow>
      debugBody (step (FetchSettled rid r) s) = PanelError
      \<and> console (step (FetchSettled rid r) s) = console s @ [ErrorLoadingUserState])
   \<and> (map_of (inflight s) rid = Some StateAwaitJson \<and> (b = BodyRejected \<or> raises) \<longrightarrow>
      debugBody (step (BodySettled rid b raises) s) = PanelError
      \<and> console (step (BodySettled rid b raises) s) = console s @ [ErrorLoadingUserState])
   \<and> (map_of (inflight s) rid = Some HistAwaitFetch \<longrightarrow>
      step (FetchSettled rid Rejected) s = console_error ErrorLoadingHistory (resume rid s))
   \<and> (map_of (inflight s) rid = Some HistAwaitJson \<longrightarrow>
      step (BodySettled rid BodyRejected raises) s
        = console_error ErrorLoadingHistory (resume rid s)
      \<and> (\<not> is_array data \<longrightarrow>
           step (BodySettled rid (Body data) raises) s
             = console_error ErrorLoadingHistory (resume rid s\<lparr>messages := []\<rparr>))
      \<and> (forEach_appendMessage ms (resume rid s\<lparr>messages := []\<rparr>) = Raised s2 \<longrightarrow>
           step (BodySettled rid (Body (JArr ms)) raises) s = console_error ErrorLoadingHistory s2
           \<and> (\<exists>k < length ms.
                forEach_appendMessage (take k ms) (resume rid s\<lparr>messages := []\<rparr>) = Returned s2
                \<and> appendMessage (ms ! k) s2 = Raised s2)))"
proof -
  have 1: "debugBody (step (FetchSettled rid r) s) = PanelError
      \<and> console (step (FetchSettled rid r) s) = console s @ [ErrorLoadingUserState]"
    if "map_of (inflight s) rid = Some StateAwaitFetch" "r \<noteq> Response True"
    using that
    by (cases r) (auto simp: openDebugPanel_fetched_def debug_catch_def console_error_def resume_def)
  have 2: "debugBody (step (BodySettled rid b raises) s) = PanelError
      \<and> console (step (BodySettled rid b raises) s) = console s @ [ErrorLoadingUserState]"
    if "map_of (inflight s) rid = Some StateAwaitJson" "b = BodyRejected \<or> raises"
    using that
    by (cases b) (auto simp: openDebugPanel_parsed_def debug_catch_def console_error_def resume_def)
  have 3: "step (FetchSettled rid Rejected) s = console_error ErrorLoadingHistory (resume rid s)"
    if "map_of (inflight s) rid = Some HistAwaitFetch"
    using that by (simp add: loadHistory_fetched_def)
  have 4: "step (BodySettled rid BodyRejected raises) s
        = console_error ErrorLoadingHistory (resume rid s)"
    if "map_of (inflight s) rid = Some HistAwaitJson"
    using that by (simp add: loadHistory_parsed_def)
  have 5: "step (BodySettled rid (Body data) raises) s
             = console_error ErrorLoadingHistory (resume rid s\<lparr>messages := []\<rparr>)"
    if "map_of (inflight s) rid = Some HistAwaitJson" "\<not> is_array data"
    using that by (cases data) (simp_all add: loadHistory_parsed_def)
  have 6: "step (BodySettled rid (Body (JArr ms)) raises) s = console_error ErrorLoadingHistory s2
           \<and> (\<exists>k < length ms.
                forEach_appendMessage (take k ms) (resume rid s\<lparr>messages := []\<rparr>) = Returned s2
                \<and> appendMessage (ms ! k) s2 = Raised s2)"
    if "map_of (inflight s) rid = Some HistAwaitJson"
      "forEach_appendMessage ms (resume rid s\<lparr>messages := []\<rparr>) = Raised s2"
    using that forEach_raised [OF that(2)] by (simp add: loadHistory_parsed_def)
  from 1 2 3 4 5 6 show ?thesis by blast
qed

theorem C9_witness:
  "debugBody (step (FetchSettled 1 (Response False)) (run [ClickDebug] init)) = PanelError
   \<and> debugBody (step (BodySettled 1 BodyRejected False)
        (run [ClickDebug, FetchSettled 1 (Response True), FetchSettled 0 (Response True)] init))
      = PanelError
   \<and> messages (step (FetchSettled 0 Rejected) (run [ClickDebug] init)) = []
   \<and> console (step (BodySettled 0 (Body JNull) False)
        (run [ClickDebug, FetchSettled 1 (Response True), FetchSettled 0 (Response True)] init))
      = [ErrorLoadingHistory]
   \<and> console (step (BodySettled 0 (Body (JArr [JObj [(js ''text'', JNum 5)]])) False)
        (run [ClickDebug, FetchSettled 1 (Response True), FetchSettled 0 (Response True)] init))
      = [ErrorLoadingHistory]"
proof -
  define s1 where "s1 = run [ClickDebug] init"
  define s2 where
    "s2 = run [ClickDebug, FetchSettled 1 (Response True), FetchSettled 0 (Response True)] init"
  define ms where "ms = [JObj [(js ''text'', JNum 5)]]"
  define s3 where "s3 = resume 0 s2\<lparr>messages := []\<rparr>"
  have 1: "inflight s1 = [(0, HistAwaitFetch), (1, StateAwaitFetch)]" "messages s1 = []"
    by (simp_all add: s1_def model_defs)
  have 2: "inflight s2 = [(1, StateAwaitJson), (0, HistAwaitJson)]" "console s2 = []"
    by (simp_all add: s2_def model_defs)
  have 3: "forEach_appendMessage ms s3 = Raised s3" "console s3 = []"
    by (simp_all add: ms_def s3_def appendMessage_def js_def resume_def 2)
  have 4: "messages (resume 0 s1) = []" "console (resume 0 s2\<lparr>messages := []\<rparr>) = []"
    by (simp_all add: resume_def 1 2)
  show ?thesis
    unfolding s1_def [symmetric] s2_def [symmetric] ms_def [symmetric]
    using C9_failed_fetches_are_logged [of s1 1 "Response False" BodyRejected False JNull ms s3]
      C9_failed_fetches_are_logged [of s1 0 "Response False" BodyRejected False JNull ms s3]
      C9_failed_fetches_are_logged [of s2 1 "Response False" BodyRejected False JNull ms s3]
      C9_failed_fetches_are_logged [of s2 0 "Response False" BodyRejected False JNull ms s3, folded s3_def]
    by (simp add: 1 2 3 4 console_error_def del: step.simps)
qed

end
